theory Spec2Isabelle
  imports Complex_Main "HOL-Library.Word"
begin

section \<open>The file signature pipeline of quantum\_signatures.py\<close>

text \<open>
  The development embeds the class \<open>QuantumSignatureEngine\<close>. Python floats are
  read as real numbers, Python lists as HOL lists, and an exception as a value of
  the type \<open>error\<close>. The modules \<open>hashlib\<close>, \<open>os\<close> and \<open>random\<close> are
  libraries outside the repository: the four hash functions and the file system
  are parameters, and the random generator is the sequence of values it hands out
  during one call.
\<close>

subsection \<open>Bytes, errors, files\<close>

type_synonym byte = "8 word"
type_synonym bytes = "byte list"

datatype error = OSError string | ZeroDivisionError | IndexError | ValueError

text \<open>A file system entry: what \<open>f.read()\<close> yields, and whether \<open>open\<close> is permitted.\<close>

record file_entry =
  content :: bytes
  readable :: bool

type_synonym filesystem = "string \<Rightarrow> file_entry option"

text \<open>
  The four \<open>hashlib\<close> algorithms, each as the function from the whole message to
  its digest. A hash object is the message fed so far: \<open>update\<close> appends (the
  documented meaning of repeated \<open>update\<close> calls) and \<open>digest\<close> applies the
  algorithm.
\<close>

record hashlib =
  sha256 :: "bytes \<Rightarrow> bytes"
  md5 :: "bytes \<Rightarrow> bytes"
  sha1 :: "bytes \<Rightarrow> bytes"
  blake2b :: "bytes \<Rightarrow> bytes"

subsection \<open>\<open>_calculate_complex_hash\<close>\<close>

text \<open>The branch for files below 50 MB: read everything, hash once.\<close>

definition hash_whole :: "hashlib \<Rightarrow> bytes \<Rightarrow> bytes" where
  "hash_whole H content_read =
     (let s256 = sha256 H content_read;
          m5 = md5 H content_read;
          s1 = sha1 H content_read;
          combined = s256 @ m5 @ s1
      in blake2b H combined)"

text \<open>
  The loop \<open>while chunk := f.read(4096)\<close>: \<open>rest\<close> is what the file still holds,
  the triple holds the messages fed to the three hash objects.
\<close>

function read_blocks :: "bytes \<Rightarrow> bytes \<times> bytes \<times> bytes \<Rightarrow> bytes \<times> bytes \<times> bytes" where
  "read_blocks rest (s256, m5, s1) =
     (let chunk = take 4096 rest
      in if chunk = [] then (s256, m5, s1)
         else read_blocks (drop 4096 rest) (s256 @ chunk, m5 @ chunk, s1 @ chunk))"
  by pat_completeness auto
termination
  by (relation "measure (\<lambda>(rest, _). length rest)") auto

declare read_blocks.simps [simp del]

text \<open>The branch for large files: three fresh hash objects, fed block by block.\<close>

definition hash_streamed :: "hashlib \<Rightarrow> bytes \<Rightarrow> bytes" where
  "hash_streamed H file_bytes =
     (case read_blocks file_bytes ([], [], []) of
        (s256, m5, s1) \<Rightarrow>
          (let combined = sha256 H s256 @ md5 H m5 @ sha1 H s1
           in blake2b H combined))"

text \<open>
  \<open>os.path.getsize\<close> raises for a missing path and \<open>open\<close> for an unreadable one;
  the handler prints and re-raises, so the error reaches the caller.
\<close>

definition calculate_complex_hash :: "hashlib \<Rightarrow> filesystem \<Rightarrow> string \<Rightarrow> error + bytes" where
  "calculate_complex_hash H fs file_path =
     (case fs file_path of
        None \<Rightarrow> Inl (OSError file_path)
      | Some f \<Rightarrow>
          if \<not> readable f then Inl (OSError file_path)
          else if length (content f) < 50 * 1024 * 1024
               then Inr (hash_whole H (content f))
               else Inr (hash_streamed H (content f)))"

subsection \<open>The engine and the random generator\<close>

text \<open>The attributes that \<open>__init__\<close> sets; \<open>init\<close> is the constructed engine.\<close>

record engine =
  dimensions :: nat
  resolution :: nat
  color_space :: string
  superposition_count :: nat
  entanglement_pairs :: "(nat \<times> nat) list"
  confidence_level :: real
  evolution_steps :: nat

definition init :: engine where
  "init = \<lparr>dimensions = 8, resolution = 256, color_space = ''hsv'',
           superposition_count = 16, entanglement_pairs = [],
           confidence_level = 0.95, evolution_steps = 3\<rparr>"

text \<open>
  The generator of the \<open>random\<close> module, as the values it returns: \<open>floats\<close> are
  the results of successive \<open>random.random()\<close> calls and \<open>ints\<close> those of
  successive \<open>random.randrange\<close> calls; \<open>fpos\<close> and \<open>ipos\<close> count the calls made.
  \<open>random.uniform(a, b)\<close> is \<open>a + (b - a) * random()\<close>, as in the library.
\<close>

record rand_source =
  floats :: "nat \<Rightarrow> real"
  ints :: "nat \<Rightarrow> nat"
  fpos :: nat
  ipos :: nat

definition random_random :: "rand_source \<Rightarrow> real \<times> rand_source" where
  "random_random g = (floats g (fpos g), g\<lparr>fpos := Suc (fpos g)\<rparr>)"

definition random_uniform :: "real \<Rightarrow> real \<Rightarrow> rand_source \<Rightarrow> real \<times> rand_source" where
  "random_uniform a b g = (case random_random g of (u, g') \<Rightarrow> (a + (b - a) * u, g'))"

definition random_randrange :: "nat \<Rightarrow> rand_source \<Rightarrow> nat \<times> rand_source" where
  "random_randrange n g = (ints g (ipos g), g\<lparr>ipos := Suc (ipos g)\<rparr>)"

text \<open>
  What the library promises of its results: \<open>random()\<close> lies in \<open>[0, 1)\<close> and
  \<open>randrange(n)\<close> below \<open>n\<close>.
\<close>

definition library_contract :: "nat \<Rightarrow> rand_source \<Rightarrow> bool" where
  "library_contract n g \<longleftrightarrow>
     (\<forall>k. 0 \<le> floats g k \<and> floats g k < 1) \<and> (\<forall>k. ints g k < n)"

text \<open>No value is returned by \<open>randrange\<close> forever.\<close>

definition never_stuck :: "rand_source \<Rightarrow> bool" where
  "never_stuck g \<longleftrightarrow> (\<forall>k v. \<exists>m\<ge>k. ints g m \<noteq> v)"

subsection \<open>\<open>_hash_to_quantum_state\<close>\<close>

type_synonym quantum_state = "real list list list"

text \<open>The comprehension that perturbs every value of a chunk, one draw per value.\<close>

fun variation :: "real list \<Rightarrow> rand_source \<Rightarrow> real list \<times> rand_source" where
  "variation [] g = ([], g)"
| "variation (v # vs) g =
     (case random_uniform (- 0.1) 0.1 g of (d, g1) \<Rightarrow>
        case variation vs g1 of (rest, g2) \<Rightarrow> (min 1 (max 0 (v + d)) # rest, g2))"

text \<open>The loop \<open>for _ in range(self.superposition_count)\<close>.\<close>

fun superposition :: "nat \<Rightarrow> real list \<Rightarrow> rand_source \<Rightarrow> real list list \<times> rand_source" where
  "superposition 0 vals g = ([], g)"
| "superposition (Suc n) vals g =
     (case variation vals g of (var, g1) \<Rightarrow>
        case superposition n vals g1 of (rest, g2) \<Rightarrow> (var # rest, g2))"

text \<open>The loop \<open>for i in range(self.dimensions)\<close>, over the indices still to do.\<close>

fun base_states ::
  "engine \<Rightarrow> bytes \<Rightarrow> nat \<Rightarrow> nat list \<Rightarrow> rand_source \<Rightarrow> quantum_state \<times> rand_source" where
  "base_states E hash_bytes chunk_size [] g = ([], g)"
| "base_states E hash_bytes chunk_size (i # todo) g =
     (let start = i * chunk_size;
          stop = (if i < dimensions E - 1 then start + chunk_size else length hash_bytes);
          chunk = take (stop - start) (drop start hash_bytes);
          vals = map (\<lambda>b. real (unat b) / 255) chunk
      in case superposition (superposition_count E) vals g of (variants, g1) \<Rightarrow>
           case base_states E hash_bytes chunk_size todo g1 of (rest, g2) \<Rightarrow> (variants # rest, g2))"

text \<open>
  The loop \<open>while dim1 == dim2: dim2 = random.randrange(self.dimensions)\<close>. It
  need not end, so the result is optional: \<open>None\<close> is the run that never leaves
  the loop.
\<close>

partial_function (option) redraw ::
  "nat \<Rightarrow> nat \<Rightarrow> nat \<Rightarrow> rand_source \<Rightarrow> (nat \<times> rand_source) option" where
  "redraw D dim1 dim2 g =
     (if dim1 = dim2
      then (case random_randrange D g of (d, g') \<Rightarrow> redraw D dim1 d g')
      else Some (dim2, g))"

text \<open>The loop \<open>for _ in range(self.dimensions // 2)\<close>; the second argument counts it down.\<close>

fun make_pairs :: "nat \<Rightarrow> nat \<Rightarrow> rand_source \<Rightarrow> ((nat \<times> nat) list \<times> rand_source) option" where
  "make_pairs D 0 g = Some ([], g)"
| "make_pairs D (Suc n) g =
     (case random_randrange D g of (dim1, g1) \<Rightarrow>
       (case random_randrange D g1 of (dim2, g2) \<Rightarrow>
          (case redraw D dim1 dim2 g2 of
             None \<Rightarrow> None
           | Some (dim2', g3) \<Rightarrow>
               (case make_pairs D n g3 of
                  None \<Rightarrow> None
                | Some (pairs, g4) \<Rightarrow> Some ((dim1, dim2') # pairs, g4)))))"

text \<open>
  The method returns the state and assigns the pairs to \<open>self.entanglement_pairs\<close>:
  the result carries the engine after the call. \<open>len(hash_bytes) // 0\<close> raises.
\<close>

definition hash_to_quantum_state ::
  "engine \<Rightarrow> bytes \<Rightarrow> rand_source \<Rightarrow> (error + quantum_state \<times> engine \<times> rand_source) option" where
  "hash_to_quantum_state E hash_bytes g =
     (if dimensions E = 0 then Some (Inl ZeroDivisionError)
      else
        let chunk_size = length hash_bytes div dimensions E
        in case base_states E hash_bytes chunk_size [0..<dimensions E] g of
             (quantum_state, g1) \<Rightarrow>
               (case make_pairs (dimensions E) (dimensions E div 2) g1 of
                  None \<Rightarrow> None
                | Some (pairs, g2) \<Rightarrow>
                    Some (Inr (quantum_state, E\<lparr>entanglement_pairs := pairs\<rparr>, g2))))"

subsection \<open>\<open>_evolve_quantum_state\<close>\<close>

text \<open>The first loop nest, for one variant: normalise, then transform every value.\<close>

definition normalized :: "real list \<Rightarrow> real list" where
  "normalized sp =
     (let total = sum_list sp
      in if total > 0 then map (\<lambda>v. v / total) sp else sp)"

definition transform :: "real \<Rightarrow> real" where
  "transform v = min 1 (max 0 ((sin (v * pi))\<^sup>2))"

definition transformed :: "real list \<Rightarrow> real list" where
  "transformed sp = map transform (normalized sp)"

text \<open>The replacement of one value pair.\<close>

definition entangle_values :: "real \<Rightarrow> real \<Rightarrow> real \<times> real" where
  "entangle_values x y =
     (let mean = (x + y) / 2; diff = \<bar>x - y\<bar> / 4 in (mean + diff, mean - diff))"

text \<open>The loop over \<open>j\<close> below the shorter length of the two variants.\<close>

fun entangle_variants :: "real list \<Rightarrow> real list \<Rightarrow> real list \<times> real list" where
  "entangle_variants (x # xs) (y # ys) =
     (case entangle_values x y of (x', y') \<Rightarrow>
        case entangle_variants xs ys of (xs', ys') \<Rightarrow> (x' # xs', y' # ys'))"
| "entangle_variants xs ys = (xs, ys)"

text \<open>The loop over \<open>i\<close> below the shorter length of the two dimensions, one draw each.\<close>

fun entangle_dimensions ::
  "real list list \<Rightarrow> real list list \<Rightarrow> rand_source
   \<Rightarrow> (real list list \<times> real list list) \<times> rand_source" where
  "entangle_dimensions (a # as) (b # bs) g =
     (case random_random g of (u, g1) \<Rightarrow>
        case (if u < 0.5 then entangle_variants a b else (a, b)) of (a', b') \<Rightarrow>
          case entangle_dimensions as bs g1 of ((as', bs'), g2) \<Rightarrow> ((a' # as', b' # bs'), g2))"
| "entangle_dimensions as bs g = ((as, bs), g)"

text \<open>
  The loop over the pairs. An index outside the state raises \<open>IndexError\<close>. The
  writes go to dimension \<open>dim1\<close> first and to \<open>dim2\<close> second.
\<close>

fun entangle ::
  "(nat \<times> nat) list \<Rightarrow> quantum_state \<Rightarrow> rand_source \<Rightarrow> error + quantum_state \<times> rand_source" where
  "entangle [] st g = Inr (st, g)"
| "entangle ((dim1, dim2) # pairs) st g =
     (if dim1 < length st \<and> dim2 < length st
      then (case entangle_dimensions (st ! dim1) (st ! dim2) g of
              ((a', b'), g1) \<Rightarrow> entangle pairs (st[dim1 := a', dim2 := b']) g1)
      else Inl IndexError)"

definition evolve_quantum_state ::
  "engine \<Rightarrow> quantum_state \<Rightarrow> rand_source \<Rightarrow> error + quantum_state \<times> rand_source" where
  "evolve_quantum_state E st g =
     (let evolved_state = map (map transformed) st
      in entangle (entanglement_pairs E) evolved_state g)"

text \<open>The loop \<open>for _ in range(self.evolution_steps)\<close> of \<open>generate_signature\<close>.\<close>

fun evolution_rounds ::
  "engine \<Rightarrow> nat \<Rightarrow> quantum_state \<Rightarrow> rand_source \<Rightarrow> error + quantum_state \<times> rand_source" where
  "evolution_rounds E 0 st g = Inr (st, g)"
| "evolution_rounds E (Suc n) st g =
     (case evolve_quantum_state E st g of
        Inl e \<Rightarrow> Inl e
      | Inr (st', g') \<Rightarrow> evolution_rounds E n st' g')"

subsection \<open>\<open>_analyze_quantum_state\<close>\<close>

record signature_data =
  amplitudes :: "real list list"
  phases :: "real list list"
  entanglement :: "(nat \<times> nat) list"

text \<open>
  Row \<open>i\<close> of \<open>collapsed_state\<close> after the accumulation: entry \<open>j\<close> has received
  the \<open>j\<close>-th value of every variant that has one (\<open>superposition[:D]\<close>).
\<close>

definition collapsed_row :: "nat \<Rightarrow> real list list \<Rightarrow> real list" where
  "collapsed_row D dimension =
     map (\<lambda>j. sum_list (map (\<lambda>sp. if j < length sp then sp ! j else 0) dimension)) [0..<D]"

definition collapsed_state :: "nat \<Rightarrow> quantum_state \<Rightarrow> real list list" where
  "collapsed_state D st =
     map (\<lambda>i. if i < length st then collapsed_row D (st ! i) else replicate D 0) [0..<D]"

text \<open>\<open>np.divide\<close> with \<open>where=row_sums != 0\<close> into an array of zeros.\<close>

definition normalized_state :: "real list list \<Rightarrow> real list list" where
  "normalized_state collapsed =
     map (\<lambda>row. let row_sum = sum_list row
                in map (\<lambda>c. if row_sum \<noteq> 0 then c / row_sum else 0) row) collapsed"

text \<open>\<open>any(i in pair or j in pair for pair in self.entanglement_pairs)\<close>.\<close>

definition in_some_pair :: "(nat \<times> nat) list \<Rightarrow> nat \<Rightarrow> nat \<Rightarrow> bool" where
  "in_some_pair pairs i j = list_ex (\<lambda>(a, b). (i = a \<or> i = b) \<or> (j = a \<or> j = b)) pairs"

text \<open>Python's \<open>x % m\<close> on floats, for a positive \<open>m\<close>.\<close>

definition float_mod :: "real \<Rightarrow> real \<Rightarrow> real" where
  "float_mod x m = x - m * of_int \<lfloor>x / m\<rfloor>"

fun phase_row ::
  "(nat \<times> nat) list \<Rightarrow> nat \<Rightarrow> nat list \<Rightarrow> rand_source \<Rightarrow> real list \<times> rand_source" where
  "phase_row pairs i [] g = ([], g)"
| "phase_row pairs i (j # js) g =
     (case (if in_some_pair pairs i j then random_uniform 0 (2 * pi) g
            else (float_mod (real (i * j)) (2 * pi), g)) of
        (ph, g1) \<Rightarrow> case phase_row pairs i js g1 of (rest, g2) \<Rightarrow> (ph # rest, g2))"

fun phase_rows ::
  "(nat \<times> nat) list \<Rightarrow> nat list \<Rightarrow> nat list \<Rightarrow> rand_source \<Rightarrow> real list list \<times> rand_source" where
  "phase_rows pairs [] js g = ([], g)"
| "phase_rows pairs (i # todo) js g =
     (case phase_row pairs i js g of
        (row, g1) \<Rightarrow> case phase_rows pairs todo js g1 of (rest, g2) \<Rightarrow> (row # rest, g2))"

text \<open>
  A state with more than \<open>D\<close> dimensions makes \<open>collapsed_state[i, j] += value\<close>
  raise as soon as such a dimension holds a value.
\<close>

definition analyze_quantum_state ::
  "engine \<Rightarrow> quantum_state \<Rightarrow> rand_source \<Rightarrow> error + signature_data \<times> rand_source" where
  "analyze_quantum_state E st g =
     (let D = dimensions E
      in if list_ex (\<lambda>dimension. list_ex (\<lambda>sp. take D sp \<noteq> []) dimension) (drop D st)
         then Inl IndexError
         else case phase_rows (entanglement_pairs E) [0..<D] [0..<D] g of
                (ph, g1) \<Rightarrow>
                  Inr (\<lparr>amplitudes = normalized_state (collapsed_state D st),
                        phases = ph,
                        entanglement = entanglement_pairs E\<rparr>, g1))"

subsection \<open>\<open>_calculate_uniqueness\<close>\<close>

text \<open>\<open>math.log2(0)\<close> raises \<open>ValueError\<close>, and \<open>self.dimensions / 2\<close> may be zero.\<close>

definition calculate_uniqueness :: "engine \<Rightarrow> signature_data \<Rightarrow> error + real" where
  "calculate_uniqueness E sd =
     (let amps = concat (amplitudes sd);
          entropy = foldl (\<lambda>e a. if a > 0 then e - a * log 2 a else e) 0 amps
      in if length amps = 0 then Inl ValueError
         else
           let max_entropy = log 2 (real (length amps));
               normalized_entropy = (if max_entropy > 0 then entropy / max_entropy else 0)
           in if dimensions E = 0 then Inl ZeroDivisionError
              else
                let entanglement_factor =
                      real (length (entanglement sd)) / (real (dimensions E) / 2);
                    uniqueness = normalized_entropy * 0.7 + entanglement_factor * 0.3
                in Inr (min 1 uniqueness))"

subsection \<open>\<open>_visualize_quantum_signature\<close>\<close>

type_synonym rgba = "int \<times> int \<times> int \<times> int"

text \<open>The pixel rows of the picture, top row first.\<close>

record image =
  width :: nat
  height :: nat
  pixels :: "rgba list list"

text \<open>\<open>int(x)\<close> on a float truncates towards zero.\<close>

definition py_int :: "real \<Rightarrow> int" where
  "py_int x = (if x < 0 then \<lceil>x\<rceil> else \<lfloor>x\<rfloor>)"

text \<open>The sector formula, which the method writes out twice.\<close>

definition hsv_to_rgb :: "real \<Rightarrow> real \<Rightarrow> real \<Rightarrow> int \<times> int \<times> int" where
  "hsv_to_rgb hue saturation val =
     (let h = hue / 60;
          i = py_int h;
          f = h - of_int i;
          p = val * (1 - saturation);
          q = val * (1 - saturation * f);
          t = val * (1 - saturation * (1 - f))
      in case (if i = 0 then (val, t, p)
               else if i = 1 then (q, val, p)
               else if i = 2 then (p, val, t)
               else if i = 3 then (p, q, val)
               else if i = 4 then (t, p, val)
               else (val, p, q)) of
           (r, g, b) \<Rightarrow> (py_int (r * 255), py_int (g * 255), py_int (b * 255)))"

text \<open>An index into a numpy matrix; outside its shape it raises.\<close>

definition matrix_at :: "real list list \<Rightarrow> nat \<Rightarrow> nat \<Rightarrow> error + real" where
  "matrix_at m i j = (if i < length m \<and> j < length (m ! i) then Inr (m ! i ! j) else Inl IndexError)"

text \<open>
  The body of the pixel loop at \<open>(x, y)\<close>: the colour drawn there, \<open>None\<close> when the
  cell lies outside the grid.
\<close>

definition grid_pixel :: "engine \<Rightarrow> signature_data \<Rightarrow> nat \<Rightarrow> nat \<Rightarrow> error + rgba option" where
  "grid_pixel E sd x y =
     (let cell_width = real (resolution E) / real (dimensions E);
          cell_height = real (resolution E) / real (dimensions E);
          i = py_int (real y / cell_height);
          j = py_int (real x / cell_width)
      in if i < int (dimensions E) \<and> j < int (dimensions E)
         then (case matrix_at (amplitudes sd) (nat i) (nat j) of
                 Inl e \<Rightarrow> Inl e
               | Inr amplitude \<Rightarrow>
                   (case matrix_at (phases sd) (nat i) (nat j) of
                      Inl e \<Rightarrow> Inl e
                    | Inr phase \<Rightarrow>
                        (let hue = (phase / (2 * pi)) * 360;
                             saturation = 0.8 + amplitude * 0.2;
                             val = 0.5 + amplitude * 0.5
                         in case hsv_to_rgb hue saturation val of
                              (r, g, b) \<Rightarrow>
                                Inr (Some (r, g, b, py_int (127 + 128 * amplitude))))))
         else Inr None)"

text \<open>The picture after the pixel loop, started from transparent black.\<close>

definition fill_grid :: "engine \<Rightarrow> signature_data \<Rightarrow> error + rgba list list" where
  "fill_grid E sd =
     (let R = resolution E
      in if list_ex (\<lambda>y. list_ex (\<lambda>x. isl (grid_pixel E sd x y)) [0..<R]) [0..<R]
         then Inl IndexError
         else Inr (map (\<lambda>y. map (\<lambda>x. case grid_pixel E sd x y of
                                        Inr (Some c) \<Rightarrow> c
                                      | _ \<Rightarrow> (0, 0, 0, 0)) [0..<R]) [0..<R]))"

text \<open>
  \<open>draw.ellipse\<close> belongs to the imaging library: \<open>paints box (x, y)\<close> tells whether
  it colours the pixel \<open>(x, y)\<close> for the bounding box \<open>box\<close>.
\<close>

type_synonym ellipse = "real \<times> real \<times> real \<times> real \<Rightarrow> nat \<times> nat \<Rightarrow> bool"

definition draw_ellipse ::
  "ellipse \<Rightarrow> real \<times> real \<times> real \<times> real \<Rightarrow> rgba \<Rightarrow> rgba list list \<Rightarrow> rgba list list" where
  "draw_ellipse paints box fill px =
     map (\<lambda>(y, row). map (\<lambda>(x, c). if paints box (x, y) then fill else c)
                          (zip [0..<length row] row))
         (zip [0..<length px] px)"

text \<open>Step \<open>k\<close> of the hundred that draw the line of one pair.\<close>

definition line_step ::
  "ellipse \<Rightarrow> engine \<Rightarrow> nat \<times> nat \<Rightarrow> rgba list list \<Rightarrow> nat \<Rightarrow> rgba list list" where
  "line_step paints E pair px k =
     (case pair of (dim1, dim2) \<Rightarrow>
      let cell_width = real (resolution E) / real (dimensions E);
          cell_height = real (resolution E) / real (dimensions E);
          x1 = (real dim1 + 0.5) * cell_width;
          y1 = (real dim1 + 0.5) * cell_height;
          x2 = (real dim2 + 0.5) * cell_width;
          y2 = (real dim2 + 0.5) * cell_height;
          t = real k / 100;
          x = x1 + (x2 - x1) * t + 20 * sin (t * pi);
          y = y1 + (y2 - y1) * t + 20 * sin (t * pi);
          hue = float_mod (t * 360) 360;
          size = real_of_int (py_int (3 + 2 * sin (t * pi * 2)))
      in case hsv_to_rgb hue 0.8 0.9 of
           (r, g, b) \<Rightarrow>
             draw_ellipse paints (x - size, y - size, x + size, y + size) (r, g, b, 200) px)"

definition visualize_quantum_signature ::
  "ellipse \<Rightarrow> engine \<Rightarrow> signature_data \<Rightarrow> error + image" where
  "visualize_quantum_signature paints E sd =
     (if dimensions E = 0 then Inl ZeroDivisionError
      else case fill_grid E sd of
             Inl e \<Rightarrow> Inl e
           | Inr px \<Rightarrow>
               Inr \<lparr>width = resolution E, height = resolution E,
                    pixels = foldl (\<lambda>px pair. foldl (line_step paints E pair) px [0..<100])
                                   px (entanglement sd)\<rparr>)"

subsection \<open>\<open>generate_signature\<close>\<close>

record signature_result =
  signature_data :: signature_data
  signature_image :: image
  confidence :: real
  uniqueness_score :: real

text \<open>
  The outer \<open>option\<close> is \<open>None\<close> for the run that never returns. A returned
  pair holds the method's value, \<open>None\<close> after a caught exception and the
  dictionary otherwise, and the engine as the call leaves it.
\<close>

definition generate_signature ::
  "hashlib \<Rightarrow> ellipse \<Rightarrow> filesystem \<Rightarrow> engine \<Rightarrow> rand_source \<Rightarrow> string \<Rightarrow> bool
   \<Rightarrow> (signature_result option \<times> engine) option" where
  "generate_signature H paints fs E g file_path evolution =
     (case calculate_complex_hash H fs file_path of
        Inl e \<Rightarrow> Some (None, E)
      | Inr file_hash \<Rightarrow>
          (case hash_to_quantum_state E file_hash g of
             None \<Rightarrow> None
           | Some (Inl e) \<Rightarrow> Some (None, E)
           | Some (Inr (quantum_state, E1, g1)) \<Rightarrow>
               (case (if evolution
                      then evolution_rounds E1 (evolution_steps E1) quantum_state g1
                      else Inr (quantum_state, g1)) of
                  Inl e \<Rightarrow> Some (None, E1)
                | Inr (evolved, g2) \<Rightarrow>
                    (case analyze_quantum_state E1 evolved g2 of
                       Inl e \<Rightarrow> Some (None, E1)
                     | Inr (sd, g3) \<Rightarrow>
                         (case visualize_quantum_signature paints E1 sd of
                            Inl e \<Rightarrow> Some (None, E1)
                          | Inr img \<Rightarrow>
                              (case calculate_uniqueness E1 sd of
                                 Inl e \<Rightarrow> Some (None, E1)
                               | Inr u \<Rightarrow>
                                   Some (Some \<lparr>signature_data = sd,
                                               signature_image = img,
                                               confidence = confidence_level E1,
                                               uniqueness_score = u\<rparr>, E1)))))))"

subsection \<open>Predicates of the statements\<close>

text \<open>A pair of two different dimension indices, both values that \<open>randrange\<close> returned.\<close>

definition proper_pair :: "rand_source \<Rightarrow> nat \<times> nat \<Rightarrow> bool" where
  "proper_pair g p \<longleftrightarrow> fst p \<noteq> snd p \<and> (\<exists>k. fst p = ints g k) \<and> (\<exists>k. snd p = ints g k)"

text \<open>All values of a variant, and of a whole state, lie in \<open>[0, 1]\<close>.\<close>

definition unit_values :: "real list \<Rightarrow> bool" where
  "unit_values sp = list_all (\<lambda>v. 0 \<le> v \<and> v \<le> 1) sp"

definition unit_state :: "quantum_state \<Rightarrow> bool" where
  "unit_state st = list_all (list_all unit_values) st"

text \<open>
  The number of cells that precede the cell \<open>(i, j)\<close> in the order of the two
  phase loops and take their phase from the generator.
\<close>

definition draws_before :: "(nat \<times> nat) list \<Rightarrow> nat \<Rightarrow> nat \<Rightarrow> nat \<Rightarrow> nat" where
  "draws_before pairs D i j =
     length (filter (\<lambda>(i', j'). in_some_pair pairs i' j') (List.product [0..<i] [0..<D]))
     + length (filter (in_some_pair pairs i) [0..<j])"

text \<open>
  The uniqueness score in the words of the specification: the Shannon entropy of
  the positive amplitude entries, divided by \<open>log2(D\<^sup>2)\<close> unless \<open>D\<^sup>2 \<le> 1\<close>; the
  coupling density \<open>|CouplingSet| / (D / 2)\<close> clamped to \<open>[0, 1]\<close>; and the weighted
  sum of the two, clamped to \<open>[0, 1]\<close>.
\<close>

definition clamp :: "real \<Rightarrow> real \<Rightarrow> real \<Rightarrow> real" where
  "clamp x lo hi = min hi (max lo x)"

definition spec_uniqueness :: "nat \<Rightarrow> real list list \<Rightarrow> (nat \<times> nat) list \<Rightarrow> real" where
  "spec_uniqueness D amplitude_matrix coupling_set =
     (let H = - sum_list (map (\<lambda>a. if a > 0 then a * log 2 a else 0) (concat amplitude_matrix));
          H_norm = (if D\<^sup>2 \<le> 1 then 0 else H / log 2 (real (D\<^sup>2)));
          entanglement_factor = clamp (real (length coupling_set) / (real D / 2)) 0 1
      in clamp (0.7 * H_norm + 0.3 * entanglement_factor) 0 1)"

text \<open>A picture of \<open>R\<close> rows of \<open>R\<close> pixels whose four channels are bytes.\<close>

definition valid_rgba :: "rgba \<Rightarrow> bool" where
  "valid_rgba c = (case c of (r, g, b, a) \<Rightarrow>
     0 \<le> r \<and> r \<le> 255 \<and> 0 \<le> g \<and> g \<le> 255 \<and> 0 \<le> b \<and> b \<le> 255 \<and> 0 \<le> a \<and> a \<le> 255)"

definition valid_pixels :: "nat \<Rightarrow> rgba list list \<Rightarrow> bool" where
  "valid_pixels R px \<longleftrightarrow>
     length px = R \<and> list_all (\<lambda>row. length row = R \<and> list_all valid_rgba row) px"

definition valid_image :: "nat \<Rightarrow> image \<Rightarrow> bool" where
  "valid_image R img \<longleftrightarrow> width img = R \<and> height img = R \<and> valid_pixels R (pixels img)"

subsection \<open>Small inputs on which the definitions are run\<close>

definition small_engine :: engine where
  "small_engine = \<lparr>dimensions = 2, resolution = 2, color_space = ''hsv'',
                    superposition_count = Suc 0, entanglement_pairs = [],
                    confidence_level = 0.95, evolution_steps = Suc 0\<rparr>"

definition alternating :: rand_source where
  "alternating = \<lparr>floats = (\<lambda>k. 1 / 4), ints = (\<lambda>k. k mod 2), fpos = 0, ipos = 0\<rparr>"

text \<open>
  Hash functions with short digests, a file system that holds one empty file, and
  an imaging library whose ellipses cover no pixel.
\<close>

definition small_hashlib :: hashlib where
  "small_hashlib = \<lparr>sha256 = (\<lambda>m. [1]), md5 = (\<lambda>m. [2]), sha1 = (\<lambda>m. [3]),
                     blake2b = (\<lambda>m. [0, 255])\<rparr>"

definition small_fs :: filesystem where
  "small_fs = (\<lambda>p. if p = ''empty.bin'' then Some \<lparr>content = [], readable = True\<rparr> else None)"

definition no_ellipse :: ellipse where
  "no_ellipse = (\<lambda>box xy. False)"

text \<open>The result of the call on the empty file with the small engine, without evolution.\<close>

definition small_result :: signature_result where
  "small_result =
     \<lparr>signature_data =
        \<lparr>amplitudes = [[0, 0], [1, 0]],
         phases = [[pi / 2, pi / 2], [pi / 2, pi / 2]],
         entanglement = [(0, 1)]\<rparr>,
      signature_image =
        \<lparr>width = 2, height = 2,
         pixels = [[(76, 127, 25, 127), (76, 127, 25, 127)],
                   [(127, 255, 0, 255), (76, 127, 25, 127)]]\<rparr>,
      confidence = 0.95,
      uniqueness_score = 3 / 10\<rparr>"

section \<open>Digest\<close>

lemma read_blocks_appends:
  "read_blocks rest (a, b, c) = (a @ rest, b @ rest, c @ rest)"
proof (induction rest "(a, b, c)" arbitrary: a b c rule: read_blocks.induct)
  case (1 rest a b c)
  show ?case
  proof (cases "take 4096 rest = []")
    case True
    then have "rest = []" by simp
    then show ?thesis by (simp add: read_blocks.simps)
  next
    case False
    have "read_blocks rest (a, b, c) =
            read_blocks (drop 4096 rest) (a @ take 4096 rest, b @ take 4096 rest, c @ take 4096 rest)"
      using False by (subst read_blocks.simps) (simp add: Let_def)
    also have "\<dots> = ((a @ take 4096 rest) @ drop 4096 rest,
                      (b @ take 4096 rest) @ drop 4096 rest,
                      (c @ take 4096 rest) @ drop 4096 rest)"
      using False by (intro "1.hyps") simp_all
    finally show ?thesis by simp
  qed
qed

text \<open>
  C5. For every byte content the block-wise branch and the whole-file branch of
  \<open>_calculate_complex_hash\<close> compute the same digest, the BLAKE2b hash of the
  SHA-256, MD5 and SHA-1 digests of the content in this order.
\<close>

theorem streamed_digest_equals_whole_digest:
  "hash_streamed H bs = hash_whole H bs
   \<and> hash_whole H bs = blake2b H (sha256 H bs @ md5 H bs @ sha1 H bs)"
  by (simp add: hash_streamed_def hash_whole_def read_blocks_appends)

section \<open>The random generator and the coupling pairs\<close>

lemma random_random_tape:
  "random_random g = (u, g') \<Longrightarrow> floats g' = floats g \<and> ints g' = ints g \<and> u = floats g (fpos g) \<and> fpos g' = Suc (fpos g) \<and> ipos g' = ipos g"
  by (auto simp: random_random_def)

lemma random_uniform_tape:
  "random_uniform a b g = (x, g') \<Longrightarrow> floats g' = floats g \<and> ints g' = ints g \<and> x = a + (b - a) * floats g (fpos g) \<and> fpos g' = Suc (fpos g)"
  by (auto simp: random_uniform_def random_random_def)

lemma random_randrange_tape:
  "random_randrange n g = (d, g') \<Longrightarrow> floats g' = floats g \<and> ints g' = ints g \<and> d = ints g (ipos g) \<and> ipos g' = Suc (ipos g)"
  by (auto simp: random_randrange_def)

lemma redraw_result:
  assumes "redraw D dim1 dim2 g = Some y"
  shows "fst y \<noteq> dim1 \<and> floats (snd y) = floats g \<and> ints (snd y) = ints g
         \<and> (fst y = dim2 \<or> (\<exists>k. fst y = ints g k))"
proof (rule redraw.raw_induct[OF _ assms, where P = "\<lambda>D dim1 dim2 g y.
         fst y \<noteq> dim1 \<and> floats (snd y) = floats g \<and> ints (snd y) = ints g
         \<and> (fst y = dim2 \<or> (\<exists>k. fst y = ints g k))"])
  fix redraw' :: "nat \<Rightarrow> nat \<Rightarrow> nat \<Rightarrow> rand_source \<Rightarrow> (nat \<times> rand_source) option"
  fix D dim1 dim2 g y
  assume hyp: "\<And>D dim1 dim2 g y. redraw' D dim1 dim2 g = Some y \<Longrightarrow>
         fst y \<noteq> dim1 \<and> floats (snd y) = floats g \<and> ints (snd y) = ints g
         \<and> (fst y = dim2 \<or> (\<exists>k. fst y = ints g k))"
  assume step: "(if dim1 = dim2
      then case random_randrange D g of (d, g') \<Rightarrow> redraw' D dim1 d g'
      else Some (dim2, g)) = Some y"
  show "fst y \<noteq> dim1 \<and> floats (snd y) = floats g \<and> ints (snd y) = ints g
         \<and> (fst y = dim2 \<or> (\<exists>k. fst y = ints g k))"
  proof (cases "dim1 = dim2")
    case True
    obtain d g' where dg: "random_randrange D g = (d, g')"
      by (cases "random_randrange D g") blast
    from step True dg have call: "redraw' D dim1 d g' = Some y" by simp
    note ih = hyp[OF call]
    note tp = random_randrange_tape[OF dg]
    have a: "fst y \<noteq> dim1" using ih by blast
    have b: "floats (snd y) = floats g" using ih tp by simp
    have c: "ints (snd y) = ints g" using ih tp by simp
    have d: "fst y = dim2 \<or> (\<exists>k. fst y = ints g k)"
    proof -
      from ih have "fst y = d \<or> (\<exists>k. fst y = ints g' k)" by blast
      then show ?thesis
      proof
        assume "fst y = d"
        with tp have "fst y = ints g (ipos g)" by simp
        then show ?thesis by blast
      next
        assume "\<exists>k. fst y = ints g' k"
        then obtain k where "fst y = ints g' k" ..
        with tp have "fst y = ints g k" by simp
        then show ?thesis by blast
      qed
    qed
    from a b c d show ?thesis by blast
  next
    case False
    from step False have "y = (dim2, g)" by simp
    with False show ?thesis by simp
  qed
qed


lemma redraw_stops:
  "\<exists>m. ipos g \<le> m \<and> m \<le> ipos g + n \<and> ints g m \<noteq> dim1
   \<Longrightarrow> \<exists>y. redraw D dim1 dim2 g = Some y"
proof (induction n arbitrary: g dim2)
  case 0
  then have ne: "ints g (ipos g) \<noteq> dim1"
    by (metis add.right_neutral le_antisym)
  show ?case
  proof (cases "dim1 = dim2")
    case False
    then show ?thesis by (subst redraw.simps) simp
  next
    case True
    have "redraw D dim1 dim2 g = redraw D dim1 (ints g (ipos g)) (g\<lparr>ipos := Suc (ipos g)\<rparr>)"
      using True by (subst redraw.simps) (simp add: random_randrange_def)
    also have "\<dots> = Some (ints g (ipos g), g\<lparr>ipos := Suc (ipos g)\<rparr>)"
      using ne by (subst redraw.simps) simp
    finally show ?thesis by blast
  qed
next
  case (Suc n)
  then obtain m where m: "ipos g \<le> m" "m \<le> ipos g + Suc n" "ints g m \<noteq> dim1" by blast
  show ?case
  proof (cases "dim1 = dim2")
    case False
    then show ?thesis by (subst redraw.simps) simp
  next
    case True
    let ?g = "g\<lparr>ipos := Suc (ipos g)\<rparr>"
    have unfold: "redraw D dim1 dim2 g = redraw D dim1 (ints g (ipos g)) ?g"
      using True by (subst redraw.simps) (simp add: random_randrange_def)
    show ?thesis
    proof (cases "m = ipos g")
      case True
      with m(3) have "redraw D dim1 (ints g (ipos g)) ?g = Some (ints g (ipos g), ?g)"
        by (subst redraw.simps) simp
      with unfold show ?thesis by simp
    next
      case False
      with m have "ipos ?g \<le> m \<and> m \<le> ipos ?g + n \<and> ints ?g m \<noteq> dim1" by simp
      then have "\<exists>m. ipos ?g \<le> m \<and> m \<le> ipos ?g + n \<and> ints ?g m \<noteq> dim1" by blast
      from Suc.IH[OF this] unfold show ?thesis by simp
    qed
  qed
qed

lemma never_stuck_redraw:
  assumes "never_stuck g"
  shows "\<exists>y. redraw D dim1 dim2 g = Some y"
proof -
  from assms obtain m where m: "ipos g \<le> m" "ints g m \<noteq> dim1"
    unfolding never_stuck_def by blast
  then have "ipos g \<le> m \<and> m \<le> ipos g + (m - ipos g) \<and> ints g m \<noteq> dim1"
    by simp
  then have "\<exists>k. ipos g \<le> k \<and> k \<le> ipos g + (m - ipos g) \<and> ints g k \<noteq> dim1"
    by (rule exI)
  then show ?thesis by (rule redraw_stops)
qed

lemma never_stuck_tape: "ints g' = ints g \<Longrightarrow> never_stuck g \<Longrightarrow> never_stuck g'"
  by (simp add: never_stuck_def)

lemma contract_tape:
  "floats g' = floats g \<Longrightarrow> ints g' = ints g \<Longrightarrow> library_contract n g \<Longrightarrow> library_contract n g'"
  by (simp add: library_contract_def)

lemma make_pairs_result:
  "make_pairs D n g = Some (ps, g') \<Longrightarrow>
     length ps = n \<and> floats g' = floats g \<and> ints g' = ints g \<and> list_all (proper_pair g) ps"
proof (induction n arbitrary: g ps g')
  case 0
  then show ?case by simp
next
  case (Suc n)
  obtain dim1 g1 where d1: "random_randrange D g = (dim1, g1)"
    by (cases "random_randrange D g") blast
  obtain dim2 g2 where d2: "random_randrange D g1 = (dim2, g2)"
    by (cases "random_randrange D g1") blast
  from Suc.prems d1 d2 obtain dim2' g3 where r: "redraw D dim1 dim2 g2 = Some (dim2', g3)"
    by (auto split: option.splits)
  from Suc.prems d1 d2 r obtain rest g4 where
    m: "make_pairs D n g3 = Some (rest, g4)" and ps: "ps = (dim1, dim2') # rest" and g': "g' = g4"
    by (auto split: option.splits)
  note t1 = random_randrange_tape[OF d1]
  note t2 = random_randrange_tape[OF d2]
  from redraw_result[OF r] have
    t3: "dim2' \<noteq> dim1" "floats g3 = floats g2" "ints g3 = ints g2"
        "dim2' = dim2 \<or> (\<exists>k. dim2' = ints g2 k)" by simp_all
  note ih = Suc.IH[OF m]
  have tape3: "floats g3 = floats g" "ints g3 = ints g" using t1 t2 t3 by simp_all
  have "\<exists>k. dim2' = ints g k"
    using t3(4) t2 t1 by (metis)
  moreover have "\<exists>k. dim1 = ints g k" using t1 by blast
  ultimately have head: "proper_pair g (dim1, dim2')"
    using t3(1) by (auto simp: proper_pair_def)
  have "list_all (proper_pair g) rest"
    using ih tape3 by (simp add: proper_pair_def list_all_iff)
  with head ih tape3 ps g' show ?case by simp
qed

lemma make_pairs_returns:
  "never_stuck g \<Longrightarrow> \<exists>y. make_pairs D n g = Some y"
proof (induction n arbitrary: g)
  case 0
  then show ?case by simp
next
  case (Suc n)
  obtain dim1 g1 where d1: "random_randrange D g = (dim1, g1)"
    by (cases "random_randrange D g") blast
  obtain dim2 g2 where d2: "random_randrange D g1 = (dim2, g2)"
    by (cases "random_randrange D g1") blast
  have "never_stuck g2"
    using Suc.prems random_randrange_tape[OF d1] random_randrange_tape[OF d2]
    by (simp add: never_stuck_def)
  from never_stuck_redraw[OF this] obtain dim2' g3 where
    r: "redraw D dim1 dim2 g2 = Some (dim2', g3)" by fastforce
  have "never_stuck g3"
    using \<open>never_stuck g2\<close> redraw_result[OF r] by (simp add: never_stuck_def)
  from Suc.IH[OF this] obtain rest g4 where "make_pairs D n g3 = Some (rest, g4)" by fastforce
  with d1 d2 r show ?case by simp
qed


section \<open>State construction\<close>

lemma variation_result:
  "variation vs g = (out, g') \<Longrightarrow>
     length out = length vs \<and> floats g' = floats g \<and> ints g' = ints g \<and> unit_values out"
proof (induction vs arbitrary: g out g')
  case Nil
  then show ?case by (simp add: unit_values_def)
next
  case (Cons v vs)
  obtain d g1 where u: "random_uniform (- 0.1) 0.1 g = (d, g1)"
    by (cases "random_uniform (- 0.1) 0.1 g") blast
  obtain rest g2 where r: "variation vs g1 = (rest, g2)"
    by (cases "variation vs g1") blast
  from Cons.prems u r have out: "out = min 1 (max 0 (v + d)) # rest" and g': "g' = g2"
    by simp_all
  from Cons.IH[OF r] random_uniform_tape[OF u] out g' show ?case
    by (simp add: unit_values_def)
qed

lemma superposition_result:
  "superposition n vs g = (out, g') \<Longrightarrow>
     length out = n \<and> floats g' = floats g \<and> ints g' = ints g
     \<and> list_all (\<lambda>sp. length sp = length vs) out \<and> list_all unit_values out"
proof (induction n arbitrary: g out g')
  case 0
  then show ?case by simp
next
  case (Suc n)
  obtain var g1 where v: "variation vs g = (var, g1)"
    by (cases "variation vs g") blast
  obtain rest g2 where r: "superposition n vs g1 = (rest, g2)"
    by (cases "superposition n vs g1") blast
  from Suc.prems v r have out: "out = var # rest" and g': "g' = g2" by simp_all
  from Suc.IH[OF r] variation_result[OF v] out g' show ?case by simp
qed

lemma base_states_result:
  "base_states E h cs idx g = (st, g') \<Longrightarrow>
     length st = length idx \<and> floats g' = floats g \<and> ints g' = ints g
     \<and> list_all (\<lambda>dimension. length dimension = superposition_count E) st \<and> unit_state st"
proof (induction idx arbitrary: g st g')
  case Nil
  then show ?case by (simp add: unit_state_def)
next
  case (Cons i idx)
  define vals where "vals = map (\<lambda>b. real (unat b) / 255)
      (take ((if i < dimensions E - 1 then i * cs + cs else length h) - i * cs) (drop (i * cs) h))"
  obtain variants g1 where v: "superposition (superposition_count E) vals g = (variants, g1)"
    by (cases "superposition (superposition_count E) vals g") blast
  obtain rest g2 where r: "base_states E h cs idx g1 = (rest, g2)"
    by (cases "base_states E h cs idx g1") blast
  from Cons.prems v r have st: "st = variants # rest" and g': "g' = g2"
    by (simp_all add: Let_def vals_def)
  from Cons.IH[OF r] superposition_result[OF v] st g' show ?case
    by (simp add: unit_state_def)
qed

lemma hash_to_quantum_state_result:
  assumes "hash_to_quantum_state E h g = Some (Inr (st, E', g'))"
  shows "0 < dimensions E \<and> length st = dimensions E \<and> unit_state st
         \<and> floats g' = floats g \<and> ints g' = ints g
         \<and> E' = E\<lparr>entanglement_pairs := entanglement_pairs E'\<rparr>
         \<and> length (entanglement_pairs E') = dimensions E div 2
         \<and> list_all (proper_pair g) (entanglement_pairs E')"
proof -
  from assms have pos: "0 < dimensions E"
    by (auto simp: hash_to_quantum_state_def split: if_splits)
  obtain st0 g1 where b: "base_states E h (length h div dimensions E) [0..<dimensions E] g = (st0, g1)"
    by (cases "base_states E h (length h div dimensions E) [0..<dimensions E] g") blast
  from assms pos b obtain ps g2 where
    m: "make_pairs (dimensions E) (dimensions E div 2) g1 = Some (ps, g2)"
    by (auto simp: hash_to_quantum_state_def Let_def split: option.splits)
  from assms pos b m have eqs: "st = st0" "E' = E\<lparr>entanglement_pairs := ps\<rparr>" "g' = g2"
    by (simp_all add: hash_to_quantum_state_def Let_def)
  note br = base_states_result[OF b]
  note mr = make_pairs_result[OF m]
  have "list_all (proper_pair g) ps"
    using mr br by (simp add: proper_pair_def list_all_iff)
  with pos br mr eqs show ?thesis by simp
qed

lemma hash_to_quantum_state_returns:
  assumes "0 < dimensions E" and "never_stuck g"
  shows "\<exists>st E' g'. hash_to_quantum_state E h g = Some (Inr (st, E', g'))"
proof -
  obtain st0 g1 where b: "base_states E h (length h div dimensions E) [0..<dimensions E] g = (st0, g1)"
    by (cases "base_states E h (length h div dimensions E) [0..<dimensions E] g") blast
  have "never_stuck g1"
    using assms(2) base_states_result[OF b] by (simp add: never_stuck_def)
  from make_pairs_returns[OF this] obtain ps g2 where
    "make_pairs (dimensions E) (dimensions E div 2) g1 = Some (ps, g2)" by fastforce
  with assms(1) b show ?thesis
    by (simp add: hash_to_quantum_state_def Let_def)
qed

lemma proper_pair_in_range:
  "library_contract D g \<Longrightarrow> proper_pair g (a, b) \<Longrightarrow> a \<noteq> b \<and> a < D \<and> b < D"
  by (auto simp: library_contract_def proper_pair_def)

lemma never_stuck_alternating: "never_stuck alternating"
proof -
  have "\<exists>m\<ge>k. m mod 2 \<noteq> v" for k v :: nat
  proof (cases "k mod 2 = v")
    case False
    then show ?thesis by blast
  next
    case True
    then have "Suc k mod 2 \<noteq> v" by presburger
    then show ?thesis using le_SucI by blast
  qed
  then show ?thesis by (simp add: never_stuck_def alternating_def)
qed

lemma library_contract_alternating: "library_contract 2 alternating"
  by (simp add: library_contract_def alternating_def)

text \<open>
  C6. State construction on a generator that keeps the library's promises: when
  the engine has a dimension and \<open>randrange\<close> never repeats one value forever,
  the construction returns; and whenever it returns, the list it leaves in
  \<open>entanglement_pairs\<close> holds exactly \<open>D div 2\<close> pairs, each of two different
  indices below \<open>D\<close>.
\<close>

theorem coupling_pairs_count_and_range:
  assumes "library_contract (dimensions E) g"
  shows "(0 < dimensions E \<and> never_stuck g
            \<longrightarrow> (\<exists>st E' g'. hash_to_quantum_state E hash_bytes g = Some (Inr (st, E', g'))))
         \<and> (\<forall>st E' g'. hash_to_quantum_state E hash_bytes g = Some (Inr (st, E', g'))
            \<longrightarrow> length (entanglement_pairs E') = dimensions E div 2
              \<and> (\<forall>(dim1, dim2) \<in> set (entanglement_pairs E').
                    dim1 \<noteq> dim2 \<and> dim1 < dimensions E \<and> dim2 < dimensions E))"
proof (intro conjI impI allI)
  assume "0 < dimensions E \<and> never_stuck g"
  then show "\<exists>st E' g'. hash_to_quantum_state E hash_bytes g = Some (Inr (st, E', g'))"
    using hash_to_quantum_state_returns by blast
next
  fix st E' g'
  assume r: "hash_to_quantum_state E hash_bytes g = Some (Inr (st, E', g'))"
  from hash_to_quantum_state_result[OF r]
  show "length (entanglement_pairs E') = dimensions E div 2" by simp
  from hash_to_quantum_state_result[OF r]
  have "list_all (proper_pair g) (entanglement_pairs E')" by simp
  then show "\<forall>(dim1, dim2) \<in> set (entanglement_pairs E').
                dim1 \<noteq> dim2 \<and> dim1 < dimensions E \<and> dim2 < dimensions E"
    using proper_pair_in_range[OF assms] by (auto simp: list_all_iff)
qed

theorem coupling_pairs_count_and_range_witness:
  "\<exists>st E' g'. hash_to_quantum_state small_engine [0, 255] alternating = Some (Inr (st, E', g'))
      \<and> length (entanglement_pairs E') = 1
      \<and> list_all (\<lambda>(dim1, dim2). dim1 \<noteq> dim2 \<and> dim1 < 2 \<and> dim2 < 2) (entanglement_pairs E')"
proof -
  have D: "dimensions small_engine = 2" by (simp add: small_engine_def)
  have c: "library_contract (dimensions small_engine) alternating"
    using library_contract_alternating by (simp add: D)
  note inst = coupling_pairs_count_and_range[OF c, of "[0, 255]"]
  from inst never_stuck_alternating D obtain st E' g' where
    r: "hash_to_quantum_state small_engine [0, 255] alternating = Some (Inr (st, E', g'))"
    by auto
  with inst have "length (entanglement_pairs E') = dimensions small_engine div 2
     \<and> (\<forall>(dim1, dim2) \<in> set (entanglement_pairs E').
            dim1 \<noteq> dim2 \<and> dim1 < dimensions small_engine \<and> dim2 < dimensions small_engine)"
    by blast
  with r D show ?thesis by (auto simp: list_all_iff)
qed


section \<open>Evolution\<close>

lemma transform_unit: "0 \<le> transform v \<and> transform v \<le> 1"
  by (simp add: transform_def)

lemma member_le_sum_list_real:
  fixes xs :: "real list"
  shows "\<forall>v\<in>set xs. 0 \<le> v \<Longrightarrow> x \<in> set xs \<Longrightarrow> x \<le> sum_list xs"
proof (induction xs)
  case Nil
  then show ?case by simp
next
  case (Cons a xs)
  have nn: "0 \<le> sum_list xs" using Cons.prems(1) by (simp add: sum_list_nonneg)
  show ?case
  proof (cases "x = a")
    case True
    with nn show ?thesis by simp
  next
    case False
    with Cons have "x \<le> sum_list xs" by simp
    moreover have "0 \<le> a" using Cons.prems(1) by simp
    ultimately show ?thesis by simp
  qed
qed

lemma normalized_unit: "unit_values sp \<Longrightarrow> unit_values (normalized sp)"
proof (cases "sum_list sp > 0")
  case False
  assume "unit_values sp"
  with False show ?thesis by (simp add: normalized_def)
next
  case True
  assume u: "unit_values sp"
  have "0 \<le> v / sum_list sp \<and> v / sum_list sp \<le> 1" if "v \<in> set sp" for v
  proof -
    from u that have "0 \<le> v" by (simp add: unit_values_def list_all_iff)
    moreover have "v \<le> sum_list sp"
      using u that by (intro member_le_sum_list_real) (simp_all add: unit_values_def list_all_iff)
    ultimately show ?thesis using True by simp
  qed
  with True show ?thesis by (simp add: normalized_def unit_values_def list_all_iff)
qed

lemma transformed_unit: "unit_values (transformed sp)"
  by (simp add: transformed_def unit_values_def list_all_iff transform_unit)

lemma length_transformed: "length (transformed sp) = length sp"
  by (simp add: transformed_def normalized_def Let_def)

lemma entangle_values_unit:
  assumes "0 \<le> x" "x \<le> 1" "0 \<le> y" "y \<le> 1" "entangle_values x y = (x', y')"
  shows "0 \<le> x' \<and> x' \<le> 1 \<and> 0 \<le> y' \<and> y' \<le> 1"
proof -
  from assms(5) have "x' = (x + y) / 2 + \<bar>x - y\<bar> / 4" "y' = (x + y) / 2 - \<bar>x - y\<bar> / 4"
    by (simp_all add: entangle_values_def Let_def)
  note eqs = this
  have "0 \<le> x'" using assms(1-4) eqs(1) by argo
  moreover have "x' \<le> 1" using assms(1-4) eqs(1) by argo
  moreover have "0 \<le> y'" using assms(1-4) eqs(2) by argo
  moreover have "y' \<le> 1" using assms(1-4) eqs(2) by argo
  ultimately show ?thesis by blast
qed

lemma entangle_values_sum: "entangle_values x y = (x', y') \<Longrightarrow> x' + y' = x + y"
  by (auto simp: entangle_values_def Let_def)

lemma entangle_variants_result:
  "entangle_variants a b = (a', b') \<Longrightarrow>
     length a' = length a \<and> length b' = length b
     \<and> (unit_values a \<and> unit_values b \<longrightarrow> unit_values a' \<and> unit_values b')
     \<and> (\<forall>j<min (length a) (length b). a' ! j + b' ! j = a ! j + b ! j)"
proof (induction a b arbitrary: a' b' rule: entangle_variants.induct)
  case (1 x xs y ys)
  obtain x' y' where v: "entangle_values x y = (x', y')"
    by (cases "entangle_values x y") blast
  obtain xs' ys' where r: "entangle_variants xs ys = (xs', ys')"
    by (cases "entangle_variants xs ys") blast
  from "1.prems" v r have eq: "a' = x' # xs'" "b' = y' # ys'" by simp_all
  note ih = "1.IH"[OF v[symmetric] r]
  have len: "length a' = length (x # xs) \<and> length b' = length (y # ys)"
    using ih eq by simp
  have unit: "unit_values (x # xs) \<and> unit_values (y # ys) \<longrightarrow> unit_values a' \<and> unit_values b'"
    using ih eq entangle_values_unit[OF _ _ _ _ v] by (simp add: unit_values_def)
  have sum: "\<forall>j<min (length (x # xs)) (length (y # ys)). a' ! j + b' ! j = (x # xs) ! j + (y # ys) ! j"
  proof (intro allI impI)
    fix j assume j: "j < min (length (x # xs)) (length (y # ys))"
    show "a' ! j + b' ! j = (x # xs) ! j + (y # ys) ! j"
    proof (cases j)
      case 0
      with eq entangle_values_sum[OF v] show ?thesis by simp
    next
      case (Suc k)
      with j have "k < min (length xs) (length ys)" by simp
      with ih have "xs' ! k + ys' ! k = xs ! k + ys ! k" by blast
      with Suc eq show ?thesis by simp
    qed
  qed
  from len unit sum show ?case by blast
next
  case "2_1"
  then show ?case by simp
next
  case "2_2"
  then show ?case by simp
qed


lemma entangle_dimensions_result:
  "entangle_dimensions as bs g = ((as', bs'), g') \<Longrightarrow>
     length as' = length as \<and> length bs' = length bs
     \<and> floats g' = floats g \<and> ints g' = ints g
     \<and> (list_all unit_values as \<and> list_all unit_values bs
          \<longrightarrow> list_all unit_values as' \<and> list_all unit_values bs')
     \<and> (\<forall>i<min (length as) (length bs). \<forall>j<min (length (as ! i)) (length (bs ! i)).
            as' ! i ! j + bs' ! i ! j = as ! i ! j + bs ! i ! j)"
proof (induction as arbitrary: bs g as' bs' g')
  case Nil
  then show ?case by simp
next
  case (Cons a as)
  show ?case
  proof (cases bs)
    case Nil
    with Cons.prems show ?thesis by simp
  next
    case (Cons b bs0)
    obtain u g1 where u: "random_random g = (u, g1)"
      by (cases "random_random g") blast
    obtain a' b' where ab: "(if u < 0.5 then entangle_variants a b else (a, b)) = (a', b')"
      by (cases "if u < 0.5 then entangle_variants a b else (a, b)") blast
    obtain as0' bs0' g2 where r: "entangle_dimensions as bs0 g1 = ((as0', bs0'), g2)"
      by (cases "entangle_dimensions as bs0 g1") auto
    from Cons.prems Cons u ab r have eq: "as' = a' # as0'" "bs' = b' # bs0'" "g' = g2"
      by simp_all
    note ih = Cons.IH[OF r]
    note tp = random_random_tape[OF u]
    have head: "length a' = length a \<and> length b' = length b
       \<and> (unit_values a \<and> unit_values b \<longrightarrow> unit_values a' \<and> unit_values b')
       \<and> (\<forall>j<min (length a) (length b). a' ! j + b' ! j = a ! j + b ! j)"
    proof (cases "u < 0.5")
      case True
      with ab have "entangle_variants a b = (a', b')" by simp
      then show ?thesis by (rule entangle_variants_result)
    next
      case False
      with ab show ?thesis by simp
    qed
    have len: "length as' = length (a # as) \<and> length bs' = length bs"
      using ih eq Cons by simp
    have tape: "floats g' = floats g \<and> ints g' = ints g"
      using ih tp eq by simp
    have unit: "list_all unit_values (a # as) \<and> list_all unit_values bs
          \<longrightarrow> list_all unit_values as' \<and> list_all unit_values bs'"
      using ih head eq Cons by simp
    have sum: "\<forall>i<min (length (a # as)) (length bs).
                 \<forall>j<min (length ((a # as) ! i)) (length (bs ! i)).
                   as' ! i ! j + bs' ! i ! j = (a # as) ! i ! j + bs ! i ! j"
    proof (intro allI impI)
      fix i j
      assume i: "i < min (length (a # as)) (length bs)"
        and j: "j < min (length ((a # as) ! i)) (length (bs ! i))"
      show "as' ! i ! j + bs' ! i ! j = (a # as) ! i ! j + bs ! i ! j"
      proof (cases i)
        case 0
        with j Cons have "j < min (length a) (length b)" by simp
        with head have "a' ! j + b' ! j = a ! j + b ! j" by blast
        with 0 eq Cons show ?thesis by simp
      next
        case (Suc k)
        with i Cons have k: "k < min (length as) (length bs0)" by simp
        from Suc j Cons have "j < min (length (as ! k)) (length (bs0 ! k))" by simp
        with ih k have "as0' ! k ! j + bs0' ! k ! j = as ! k ! j + bs0 ! k ! j" by blast
        with Suc eq Cons show ?thesis by simp
      qed
    qed
    from len tape unit sum show ?thesis by blast
  qed
qed

lemma unit_state_update:
  "unit_state st \<Longrightarrow> list_all unit_values d \<Longrightarrow> unit_state (st[i := d])"
  by (auto simp: unit_state_def list_all_iff dest!: set_update_subset_insert[THEN subsetD])

lemma unit_state_nth: "unit_state st \<Longrightarrow> i < length st \<Longrightarrow> list_all unit_values (st ! i)"
  by (simp add: unit_state_def list_all_length)

lemma entangle_result:
  "entangle pairs st g = Inr (st', g') \<Longrightarrow>
     length st' = length st \<and> floats g' = floats g \<and> ints g' = ints g
     \<and> (unit_state st \<longrightarrow> unit_state st')"
proof (induction pairs arbitrary: st g)
  case Nil
  then show ?case by simp
next
  case (Cons p pairs)
  obtain dim1 dim2 where p: "p = (dim1, dim2)" by (cases p) blast
  from Cons.prems p have inr: "dim1 < length st" "dim2 < length st"
    by (auto split: if_splits)
  obtain a' b' g1 where d: "entangle_dimensions (st ! dim1) (st ! dim2) g = ((a', b'), g1)"
    by (cases "entangle_dimensions (st ! dim1) (st ! dim2) g") auto
  from Cons.prems p inr d have r: "entangle pairs (st[dim1 := a', dim2 := b']) g1 = Inr (st', g')"
    by simp
  note ih = Cons.IH[OF r]
  note dr = entangle_dimensions_result[OF d]
  have "unit_state (st[dim1 := a', dim2 := b'])" if "unit_state st"
  proof -
    from that inr have "list_all unit_values (st ! dim1)" "list_all unit_values (st ! dim2)"
      by (simp_all add: unit_state_nth)
    with dr have "list_all unit_values a'" "list_all unit_values b'" by simp_all
    with that show ?thesis by (simp add: unit_state_update)
  qed
  with ih dr show ?case by simp
qed

lemma entangle_returns:
  "list_all (\<lambda>(dim1, dim2). dim1 < length st \<and> dim2 < length st) pairs
   \<Longrightarrow> \<exists>st' g'. entangle pairs st g = Inr (st', g')"
proof (induction pairs arbitrary: st g)
  case Nil
  then show ?case by simp
next
  case (Cons p pairs)
  obtain dim1 dim2 where p: "p = (dim1, dim2)" by (cases p) blast
  from Cons.prems p have inr: "dim1 < length st" "dim2 < length st" by simp_all
  obtain a' b' g1 where d: "entangle_dimensions (st ! dim1) (st ! dim2) g = ((a', b'), g1)"
    by (cases "entangle_dimensions (st ! dim1) (st ! dim2) g") auto
  have "list_all (\<lambda>(x, y). x < length (st[dim1 := a', dim2 := b'])
                          \<and> y < length (st[dim1 := a', dim2 := b'])) pairs"
    using Cons.prems by simp
  from Cons.IH[OF this, of g1] p inr d show ?case by simp
qed

lemma evolve_quantum_state_result:
  assumes "evolve_quantum_state E st g = Inr (st', g')"
  shows "length st' = length st \<and> floats g' = floats g \<and> ints g' = ints g \<and> unit_state st'"
proof -
  have u: "unit_state (map (map transformed) st)"
    by (simp add: unit_state_def list_all_iff transformed_unit)
  from assms have "entangle (entanglement_pairs E) (map (map transformed) st) g = Inr (st', g')"
    by (simp add: evolve_quantum_state_def)
  from entangle_result[OF this] u show ?thesis by simp
qed

lemma evolve_quantum_state_returns:
  assumes "list_all (\<lambda>(dim1, dim2). dim1 < length st \<and> dim2 < length st) (entanglement_pairs E)"
  shows "\<exists>st' g'. evolve_quantum_state E st g = Inr (st', g')"
proof -
  have "list_all (\<lambda>(dim1, dim2). dim1 < length (map (map transformed) st)
                               \<and> dim2 < length (map (map transformed) st)) (entanglement_pairs E)"
    using assms by simp
  from entangle_returns[OF this] show ?thesis by (simp add: evolve_quantum_state_def)
qed

lemma evolution_rounds_result:
  "evolution_rounds E n st g = Inr (st', g') \<Longrightarrow>
     length st' = length st \<and> floats g' = floats g \<and> ints g' = ints g
     \<and> (unit_state st \<longrightarrow> unit_state st')"
proof (induction n arbitrary: st g)
  case 0
  then show ?case by simp
next
  case (Suc n)
  from Suc.prems obtain st1 g1 where e: "evolve_quantum_state E st g = Inr (st1, g1)"
    by (auto split: sum.splits)
  with Suc.prems have r: "evolution_rounds E n st1 g1 = Inr (st', g')" by simp
  from Suc.IH[OF r] evolve_quantum_state_result[OF e] show ?case by simp
qed

lemma evolution_rounds_returns:
  "list_all (\<lambda>(dim1, dim2). dim1 < length st \<and> dim2 < length st) (entanglement_pairs E)
   \<Longrightarrow> \<exists>st' g'. evolution_rounds E n st g = Inr (st', g')"
proof (induction n arbitrary: st g)
  case 0
  then show ?case by simp
next
  case (Suc n)
  from evolve_quantum_state_returns[OF Suc.prems] obtain st1 g1 where
    e: "evolve_quantum_state E st g = Inr (st1, g1)" by blast
  have "length st1 = length st" using evolve_quantum_state_result[OF e] by simp
  with Suc.prems have
    "list_all (\<lambda>(dim1, dim2). dim1 < length st1 \<and> dim2 < length st1) (entanglement_pairs E)"
    by simp
  from Suc.IH[OF this, of g1] e show ?case by simp
qed


section \<open>Runs on the small inputs\<close>

lemma upt_2: "[0..<2] = [0, Suc 0]"
  by (simp add: upt_rec)

lemma small_construction:
  "hash_to_quantum_state small_engine [0, 255] alternating =
     Some (Inr ([[[0]], [[19 / 20]]], small_engine\<lparr>entanglement_pairs := [(0, 1)]\<rparr>,
                alternating\<lparr>fpos := 2, ipos := 2\<rparr>))"
  by (simp add: hash_to_quantum_state_def small_engine_def alternating_def Let_def upt_2
       random_uniform_def random_random_def random_randrange_def redraw.simps)

lemma small_round:
  "evolution_rounds (small_engine\<lparr>entanglement_pairs := [(0, 1)]\<rparr>) (Suc 0)
      [[[0]], [[19 / 20]]] (alternating\<lparr>fpos := 2, ipos := 2\<rparr>) =
     Inr ([[[0]], [[0]]], alternating\<lparr>fpos := 3, ipos := 2\<rparr>)"
  by (simp add: evolve_quantum_state_def small_engine_def alternating_def transformed_def
       normalized_def transform_def entangle_values_def random_random_def Let_def)

lemma three_pairs:
  "entangle [(0, 1), (1, 2)] [[[1]], [[0]], [[1]]] alternating =
     Inr ([[[3 / 4]], [[13 / 16]], [[7 / 16]]], alternating\<lparr>fpos := 2\<rparr>)"
  by (simp add: alternating_def entangle_values_def random_random_def Let_def)


section \<open>Values stay in the unit interval; coupling and sums\<close>

text \<open>
  C9. A state built by \<open>_hash_to_quantum_state\<close> has all its values in \<open>[0, 1]\<close>,
  and so has the state after any number \<open>n\<close> of evolution rounds; normalisation,
  the transform and the replacement of a value pair each send values of \<open>[0, 1]\<close>
  to values of \<open>[0, 1]\<close>.
\<close>

theorem evolution_keeps_unit_interval:
  assumes "hash_to_quantum_state E hash_bytes g = Some (Inr (st, E1, g1))"
    and "evolution_rounds E1 n st g1 = Inr (st', g')"
  shows "unit_state st \<and> unit_state st'
         \<and> (unit_values sp \<longrightarrow> unit_values (normalized sp))
         \<and> (0 \<le> v \<and> v \<le> 1 \<longrightarrow> 0 \<le> transform v \<and> transform v \<le> 1)
         \<and> (0 \<le> x \<and> x \<le> 1 \<and> 0 \<le> y \<and> y \<le> 1 \<longrightarrow>
              0 \<le> fst (entangle_values x y) \<and> fst (entangle_values x y) \<le> 1
              \<and> 0 \<le> snd (entangle_values x y) \<and> snd (entangle_values x y) \<le> 1)"
proof -
  have built: "unit_state st"
    using hash_to_quantum_state_result[OF assms(1)] by simp
  have evolved: "unit_state st'"
    using evolution_rounds_result[OF assms(2)] built by simp
  have pair: "0 \<le> fst (entangle_values x y) \<and> fst (entangle_values x y) \<le> 1
              \<and> 0 \<le> snd (entangle_values x y) \<and> snd (entangle_values x y) \<le> 1"
    if "0 \<le> x \<and> x \<le> 1 \<and> 0 \<le> y \<and> y \<le> 1"
    using that entangle_values_unit[of x y "fst (entangle_values x y)" "snd (entangle_values x y)"]
    by simp
  from built evolved normalized_unit transform_unit pair show ?thesis by blast
qed

theorem evolution_keeps_unit_interval_witness:
  "unit_state [[[0]], [[19 / 20]]] \<and> unit_state [[[0]], [[0]]]
   \<and> unit_values (normalized [1 / 2, 1 / 4])
   \<and> 0 \<le> transform (1 / 2) \<and> transform (1 / 2) \<le> 1
   \<and> 0 \<le> fst (entangle_values 1 0) \<and> fst (entangle_values 1 0) \<le> 1
   \<and> 0 \<le> snd (entangle_values 1 0) \<and> snd (entangle_values 1 0) \<le> 1"
proof -
  have u: "unit_values [1 / 2, 1 / 4]" by (simp add: unit_values_def)
  have v: "(0::real) \<le> 1 / 2 \<and> (1::real) / 2 \<le> 1" by simp
  have xy: "(0::real) \<le> 1 \<and> (1::real) \<le> 1 \<and> (0::real) \<le> 0 \<and> (0::real) \<le> 1" by simp
  from evolution_keeps_unit_interval[OF small_construction small_round,
      of "[1 / 2, 1 / 4]" "1 / 2" 1 0] u v xy
  show ?thesis by blast
qed

text \<open>
  C10. The replacement of a value pair keeps the sum of the two values, and the
  coupling of one pair of different dimensions, whatever is drawn, keeps the sum
  at every position that both dimensions have.
\<close>

theorem coupling_of_one_pair_keeps_sums:
  assumes "dim1 \<noteq> dim2"
    and "entangle [(dim1, dim2)] st g = Inr (st', g')"
  shows "fst (entangle_values x y) + snd (entangle_values x y) = x + y
         \<and> (\<forall>i<min (length (st ! dim1)) (length (st ! dim2)).
              \<forall>j<min (length (st ! dim1 ! i)) (length (st ! dim2 ! i)).
                st' ! dim1 ! i ! j + st' ! dim2 ! i ! j = st ! dim1 ! i ! j + st ! dim2 ! i ! j)"
proof -
  have vsum: "fst (entangle_values x y) + snd (entangle_values x y) = x + y"
    using entangle_values_sum[of x y "fst (entangle_values x y)" "snd (entangle_values x y)"]
    by simp
  from assms(2) have inr: "dim1 < length st" "dim2 < length st"
    by (auto split: if_splits)
  obtain a' b' g1 where d: "entangle_dimensions (st ! dim1) (st ! dim2) g = ((a', b'), g1)"
    by (cases "entangle_dimensions (st ! dim1) (st ! dim2) g") auto
  from assms(2) inr d have st': "st' = st[dim1 := a', dim2 := b']" by simp
  from st' inr assms(1) have "st' ! dim1 = a'" "st' ! dim2 = b'" by simp_all
  with entangle_dimensions_result[OF d] vsum show ?thesis by simp
qed

theorem coupling_of_one_pair_keeps_sums_witness:
  "entangle [(0, 1)] [[[1]], [[0]]] alternating = Inr ([[[3 / 4]], [[1 / 4]]], alternating\<lparr>fpos := 1\<rparr>)
   \<and> fst (entangle_values 1 0) + snd (entangle_values 1 0) = 1 + 0
   \<and> [[[3 / 4]], [[1 / 4]]] ! 0 ! 0 ! 0 + [[[3 / 4]], [[1 / 4]]] ! 1 ! 0 ! 0
       = [[[1]], [[0]]] ! 0 ! 0 ! 0 + ([[[1]], [[0]]] ! 1 ! 0 ! 0 :: real)"
proof -
  have ne: "(0::nat) \<noteq> 1" by simp
  have run: "entangle [(0, 1)] [[[1]], [[0]]] alternating
               = Inr ([[[3 / 4]], [[1 / 4]]], alternating\<lparr>fpos := 1\<rparr>)"
    by (simp add: alternating_def entangle_values_def random_random_def Let_def)
  from coupling_of_one_pair_keeps_sums[OF ne run, of 1 0] run show ?thesis by simp
qed

theorem coupling_of_two_pairs_changes_sum:
  "entangle [(0, 1), (1, 2)] [[[1]], [[0]], [[1]]] alternating =
     Inr ([[[3 / 4]], [[13 / 16]], [[7 / 16]]], alternating\<lparr>fpos := 2\<rparr>)
   \<and> [[[3 / 4]], [[13 / 16]], [[7 / 16]]] ! 0 ! 0 ! 0 + [[[3 / 4]], [[13 / 16]], [[7 / 16]]] ! 1 ! 0 ! 0
       \<noteq> [[[1]], [[0]], [[1]]] ! 0 ! 0 ! 0 + ([[[1]], [[0]], [[1]]] ! 1 ! 0 ! 0 :: real)"
  by (simp add: alternating_def entangle_values_def random_random_def Let_def)


section \<open>Analysis\<close>

lemma length_collapsed_state: "length (collapsed_state D st) = D"
  by (simp add: collapsed_state_def)

lemma length_collapsed_row: "i < D \<Longrightarrow> length (collapsed_state D st ! i) = D"
  by (simp add: collapsed_state_def collapsed_row_def)

lemma length_normalized_state: "length (normalized_state c) = length c"
  by (simp add: normalized_state_def)

lemma normalized_state_nth:
  "i < length c \<Longrightarrow>
     normalized_state c ! i =
       map (\<lambda>x. if sum_list (c ! i) \<noteq> 0 then x / sum_list (c ! i) else 0) (c ! i)"
  by (simp add: normalized_state_def Let_def)

lemma sum_list_scaled:
  fixes row :: "real list"
  shows "sum_list (map (\<lambda>x. if s \<noteq> 0 then x / s else 0) row) = (if s \<noteq> 0 then sum_list row / s else 0)"
  by (induction row) (simp_all add: add_divide_distrib)

lemma all_zero_sum: "list_all (\<lambda>a. a = (0::real)) xs \<Longrightarrow> sum_list xs = 0"
  by (induction xs) simp_all

lemma normalized_row_sum:
  fixes row :: "real list"
  defines "out \<equiv> map (\<lambda>x. if sum_list row \<noteq> 0 then x / sum_list row else 0) row"
  shows "(sum_list row \<noteq> 0 \<longrightarrow> sum_list out = 1)
         \<and> (list_all (\<lambda>a. a = 0) out \<longleftrightarrow> sum_list row = 0)"
proof -
  have s: "sum_list out = (if sum_list row \<noteq> 0 then 1 else 0)"
    unfolding out_def by (simp add: sum_list_scaled)
  have z: "list_all (\<lambda>a. a = 0) out" if "sum_list row = 0"
    using that unfolding out_def by (simp add: list_all_iff)
  have nz: "\<not> list_all (\<lambda>a. a = 0) out" if "sum_list row \<noteq> 0"
  proof
    assume "list_all (\<lambda>a. a = 0) out"
    then have "sum_list out = 0" by (rule all_zero_sum)
    with s that show False by simp
  qed
  from s z nz show ?thesis by auto
qed

lemma collapsed_nonneg:
  assumes "unit_state st" "i < D"
  shows "\<forall>c\<in>set (collapsed_state D st ! i). 0 \<le> c"
proof (cases "i < length st")
  case False
  with assms(2) show ?thesis by (simp add: collapsed_state_def)
next
  case True
  have "0 \<le> (if j < length sp then sp ! j else 0)" if "sp \<in> set (st ! i)" for sp j
  proof -
    from unit_state_nth[OF assms(1) True] that have "unit_values sp"
      by (simp add: list_all_iff)
    then show ?thesis by (simp add: unit_values_def list_all_length)
  qed
  note entry = this
  have "0 \<le> sum_list (map (\<lambda>sp. if j < length sp then sp ! j else 0) (st ! i))" for j
  proof (rule sum_list_nonneg)
    fix x assume "x \<in> set (map (\<lambda>sp. if j < length sp then sp ! j else 0) (st ! i))"
    then obtain sp where "sp \<in> set (st ! i)" "x = (if j < length sp then sp ! j else 0)"
      by (auto simp del: if_split)
    with entry[of sp j] show "0 \<le> x" by simp
  qed
  with True assms(2) show ?thesis
    by (auto simp: collapsed_state_def collapsed_row_def)
qed

lemma normalized_row_unit:
  fixes row :: "real list"
  assumes "\<forall>c\<in>set row. 0 \<le> c"
  shows "unit_values (map (\<lambda>x. if sum_list row \<noteq> 0 then x / sum_list row else 0) row)"
proof (cases "sum_list row = 0")
  case True
  then show ?thesis by (simp add: unit_values_def list_all_iff)
next
  case False
  moreover have "0 \<le> sum_list row" using assms by (simp add: sum_list_nonneg)
  ultimately have pos: "0 < sum_list row" by simp
  have "0 \<le> x / sum_list row \<and> x / sum_list row \<le> 1" if "x \<in> set row" for x
  proof -
    from that assms have "0 \<le> x" by simp
    moreover from that assms have "x \<le> sum_list row" by (intro member_le_sum_list_real)
    ultimately show ?thesis using pos by simp
  qed
  with False show ?thesis by (simp add: unit_values_def list_all_iff)
qed

lemma amplitudes_unit:
  assumes "unit_state st" "i < D"
  shows "unit_values (normalized_state (collapsed_state D st) ! i)"
  using normalized_row_unit[OF collapsed_nonneg[OF assms]] assms(2)
  by (simp add: normalized_state_nth length_collapsed_state)

lemma phase_row_result:
  "phase_row pairs i js g = (row, g') \<Longrightarrow>
     length row = length js \<and> floats g' = floats g \<and> ints g' = ints g
     \<and> fpos g' = fpos g + length (filter (in_some_pair pairs i) js)
     \<and> (\<forall>n<length js. row ! n =
           (if in_some_pair pairs i (js ! n)
            then 2 * pi * floats g (fpos g + length (filter (in_some_pair pairs i) (take n js)))
            else float_mod (real (i * (js ! n))) (2 * pi)))"
proof (induction js arbitrary: g row g')
  case Nil
  then show ?case by simp
next
  case (Cons j js)
  define hit where "hit = in_some_pair pairs i j"
  obtain ph g1 where h: "(if hit then random_uniform 0 (2 * pi) g
                          else (float_mod (real (i * j)) (2 * pi), g)) = (ph, g1)"
    by (cases "if hit then random_uniform 0 (2 * pi) g
               else (float_mod (real (i * j)) (2 * pi), g)") blast
  obtain rest g2 where r: "phase_row pairs i js g1 = (rest, g2)"
    by (cases "phase_row pairs i js g1") blast
  from Cons.prems h r have eq: "row = ph # rest" "g' = g2"
    by (simp_all add: hit_def)
  note ih = Cons.IH[OF r]
  have first: "floats g1 = floats g \<and> ints g1 = ints g
      \<and> fpos g1 = fpos g + (if hit then 1 else 0)
      \<and> ph = (if hit then 2 * pi * floats g (fpos g) else float_mod (real (i * j)) (2 * pi))"
  proof (cases hit)
    case True
    with h have "random_uniform 0 (2 * pi) g = (ph, g1)" by simp
    from random_uniform_tape[OF this] True show ?thesis by simp
  next
    case False
    with h show ?thesis by simp
  qed
  have len: "length row = length (j # js)" using ih eq by simp
  have tape: "floats g' = floats g \<and> ints g' = ints g" using ih first eq by simp
  have pos: "fpos g' = fpos g + length (filter (in_some_pair pairs i) (j # js))"
    using ih first eq by (simp add: hit_def)
  have entries: "\<forall>n<length (j # js). row ! n =
           (if in_some_pair pairs i ((j # js) ! n)
            then 2 * pi * floats g (fpos g + length (filter (in_some_pair pairs i) (take n (j # js))))
            else float_mod (real (i * ((j # js) ! n))) (2 * pi))"
  proof (intro allI impI)
    fix n assume n: "n < length (j # js)"
    show "row ! n =
           (if in_some_pair pairs i ((j # js) ! n)
            then 2 * pi * floats g (fpos g + length (filter (in_some_pair pairs i) (take n (j # js))))
            else float_mod (real (i * ((j # js) ! n))) (2 * pi))"
    proof (cases n)
      case 0
      with first eq show ?thesis by (simp add: hit_def)
    next
      case (Suc k)
      with n have k: "k < length js" by simp
      with ih have "rest ! k =
           (if in_some_pair pairs i (js ! k)
            then 2 * pi * floats g1 (fpos g1 + length (filter (in_some_pair pairs i) (take k js)))
            else float_mod (real (i * (js ! k))) (2 * pi))" by blast
      with Suc eq first show ?thesis by (simp add: hit_def)
    qed
  qed
  from len tape pos entries show ?case by blast
qed


lemma phase_rows_result:
  "phase_rows pairs rs js g = (rows, g') \<Longrightarrow>
     length rows = length rs \<and> floats g' = floats g \<and> ints g' = ints g
     \<and> fpos g' = fpos g
           + length (filter (\<lambda>(i, j). in_some_pair pairs i j) (List.product rs js))
     \<and> (\<forall>m<length rs. length (rows ! m) = length js
           \<and> (\<forall>n<length js. rows ! m ! n =
                 (if in_some_pair pairs (rs ! m) (js ! n)
                  then 2 * pi * floats g (fpos g
                         + length (filter (\<lambda>(i, j). in_some_pair pairs i j)
                                     (List.product (take m rs) js))
                         + length (filter (in_some_pair pairs (rs ! m)) (take n js)))
                  else float_mod (real (rs ! m * (js ! n))) (2 * pi))))"
proof (induction rs arbitrary: g rows g')
  case Nil
  then show ?case by simp
next
  case (Cons i rs)
  obtain row g1 where h: "phase_row pairs i js g = (row, g1)"
    by (cases "phase_row pairs i js g") blast
  obtain rest g2 where r: "phase_rows pairs rs js g1 = (rest, g2)"
    by (cases "phase_rows pairs rs js g1") blast
  from Cons.prems h r have eq: "rows = row # rest" "g' = g2" by simp_all
  note ih = Cons.IH[OF r]
  note hr = phase_row_result[OF h]
  have len: "length rows = length (i # rs)" using ih eq by simp
  have tape: "floats g' = floats g \<and> ints g' = ints g" using ih hr eq by simp
  have pos: "fpos g' = fpos g
      + length (filter (\<lambda>(i, j). in_some_pair pairs i j) (List.product (i # rs) js))"
    using ih hr eq by (simp add: comp_def)
  have entries: "\<forall>m<length (i # rs). length (rows ! m) = length js
           \<and> (\<forall>n<length js. rows ! m ! n =
                 (if in_some_pair pairs ((i # rs) ! m) (js ! n)
                  then 2 * pi * floats g (fpos g
                         + length (filter (\<lambda>(i, j). in_some_pair pairs i j)
                                     (List.product (take m (i # rs)) js))
                         + length (filter (in_some_pair pairs ((i # rs) ! m)) (take n js)))
                  else float_mod (real ((i # rs) ! m * (js ! n))) (2 * pi)))"
  proof (intro allI impI)
    fix m assume m: "m < length (i # rs)"
    show "length (rows ! m) = length js
           \<and> (\<forall>n<length js. rows ! m ! n =
                 (if in_some_pair pairs ((i # rs) ! m) (js ! n)
                  then 2 * pi * floats g (fpos g
                         + length (filter (\<lambda>(i, j). in_some_pair pairs i j)
                                     (List.product (take m (i # rs)) js))
                         + length (filter (in_some_pair pairs ((i # rs) ! m)) (take n js)))
                  else float_mod (real ((i # rs) ! m * (js ! n))) (2 * pi)))"
    proof (cases m)
      case 0
      with hr eq show ?thesis by simp
    next
      case (Suc k)
      with m have k: "k < length rs" by simp
      with ih have "length (rest ! k) = length js
           \<and> (\<forall>n<length js. rest ! k ! n =
                 (if in_some_pair pairs (rs ! k) (js ! n)
                  then 2 * pi * floats g1 (fpos g1
                         + length (filter (\<lambda>(i, j). in_some_pair pairs i j)
                                     (List.product (take k rs) js))
                         + length (filter (in_some_pair pairs (rs ! k)) (take n js)))
                  else float_mod (real (rs ! k * (js ! n))) (2 * pi)))" by blast
      with Suc eq hr show ?thesis by (simp add: comp_def add.assoc)
    qed
  qed
  from len tape pos entries show ?case by blast
qed

lemma float_mod_range:
  assumes "0 < m"
  shows "0 \<le> float_mod x m \<and> float_mod x m < m"
proof -
  have lo: "of_int \<lfloor>x / m\<rfloor> \<le> x / m" by simp
  have hi: "x / m < of_int \<lfloor>x / m\<rfloor> + 1" by linarith
  have "of_int \<lfloor>x / m\<rfloor> * m \<le> x"
    using assms lo pos_le_divide_eq[of m "of_int \<lfloor>x / m\<rfloor>" x] by blast
  moreover have "x < (of_int \<lfloor>x / m\<rfloor> + 1) * m"
    using assms hi pos_divide_less_eq[of m x "of_int \<lfloor>x / m\<rfloor> + 1"] by blast
  ultimately show ?thesis by (simp add: float_mod_def algebra_simps)
qed

lemma analyze_quantum_state_result:
  assumes "analyze_quantum_state E st g = Inr (sd, g')"
  shows "amplitudes sd = normalized_state (collapsed_state (dimensions E) st)
         \<and> entanglement sd = entanglement_pairs E
         \<and> floats g' = floats g \<and> ints g' = ints g
         \<and> length (phases sd) = dimensions E
         \<and> (\<forall>i<dimensions E. length (phases sd ! i) = dimensions E
              \<and> (\<forall>j<dimensions E. phases sd ! i ! j =
                    (if in_some_pair (entanglement_pairs E) i j
                     then 2 * pi * floats g
                            (fpos g + draws_before (entanglement_pairs E) (dimensions E) i j)
                     else float_mod (real (i * j)) (2 * pi))))"
proof -
  define D where "D = dimensions E"
  obtain ph g1 where p: "phase_rows (entanglement_pairs E) [0..<D] [0..<D] g = (ph, g1)"
    by (cases "phase_rows (entanglement_pairs E) [0..<D] [0..<D] g") blast
  from assms p have eq: "sd = \<lparr>amplitudes = normalized_state (collapsed_state D st),
      phases = ph, entanglement = entanglement_pairs E\<rparr>" "g' = g1"
    by (auto simp: analyze_quantum_state_def Let_def D_def split: if_splits)
  note pr = phase_rows_result[OF p]
  have cells: "length (ph ! i) = D \<and> (\<forall>j<D. ph ! i ! j =
                    (if in_some_pair (entanglement_pairs E) i j
                     then 2 * pi * floats g (fpos g + draws_before (entanglement_pairs E) D i j)
                     else float_mod (real (i * j)) (2 * pi)))" if i: "i < D" for i
  proof -
    from pr i have row: "length (ph ! i) = length [0..<D]
           \<and> (\<forall>n<length [0..<D]. ph ! i ! n =
                 (if in_some_pair (entanglement_pairs E) ([0..<D] ! i) ([0..<D] ! n)
                  then 2 * pi * floats g (fpos g
                         + length (filter (\<lambda>(i, j). in_some_pair (entanglement_pairs E) i j)
                                     (List.product (take i [0..<D]) [0..<D]))
                         + length (filter (in_some_pair (entanglement_pairs E) ([0..<D] ! i))
                                     (take n [0..<D])))
                  else float_mod (real ([0..<D] ! i * ([0..<D] ! n))) (2 * pi)))"
      by simp
    have "ph ! i ! j =
                    (if in_some_pair (entanglement_pairs E) i j
                     then 2 * pi * floats g (fpos g + draws_before (entanglement_pairs E) D i j)
                     else float_mod (real (i * j)) (2 * pi))" if j: "j < D" for j
    proof -
      from i have ti: "take i [0..<D] = [0..<i]" by (simp add: take_upt)
      from j have tj: "take j [0..<D] = [0..<j]" by (simp add: take_upt)
      from row j have "ph ! i ! j =
                 (if in_some_pair (entanglement_pairs E) ([0..<D] ! i) ([0..<D] ! j)
                  then 2 * pi * floats g (fpos g
                         + length (filter (\<lambda>(i, j). in_some_pair (entanglement_pairs E) i j)
                                     (List.product (take i [0..<D]) [0..<D]))
                         + length (filter (in_some_pair (entanglement_pairs E) ([0..<D] ! i))
                                     (take j [0..<D])))
                  else float_mod (real ([0..<D] ! i * ([0..<D] ! j))) (2 * pi))" by simp
      with i j ti tj show ?thesis by (simp add: draws_before_def add.assoc)
    qed
    with row show ?thesis by simp
  qed
  have shape: "length ph = D" "floats g1 = floats g" "ints g1 = ints g"
    using pr by simp_all
  from eq shape cells show ?thesis unfolding D_def by simp
qed

lemma analyze_quantum_state_returns:
  "length st \<le> dimensions E \<Longrightarrow> \<exists>sd g'. analyze_quantum_state E st g = Inr (sd, g')"
  by (cases "phase_rows (entanglement_pairs E) [0..<dimensions E] [0..<dimensions E] g")
     (simp add: analyze_quantum_state_def Let_def)


section \<open>The two matrices\<close>

lemma small_analysis:
  "analyze_quantum_state (small_engine\<lparr>entanglement_pairs := [(0, 1)]\<rparr>)
      [[[0]], [[19 / 20]]] (alternating\<lparr>fpos := 2, ipos := 2\<rparr>) =
     Inr (\<lparr>amplitudes = [[0, 0], [1, 0]],
           phases = [[pi / 2, pi / 2], [pi / 2, pi / 2]],
           entanglement = [(0, 1)]\<rparr>, alternating\<lparr>fpos := 6, ipos := 2\<rparr>)"
  by (simp add: analyze_quantum_state_def small_engine_def alternating_def Let_def upt_2
       collapsed_state_def collapsed_row_def normalized_state_def in_some_pair_def
       random_uniform_def random_random_def)

lemma small_analysis_uncoupled:
  "analyze_quantum_state small_engine [[[0]], [[19 / 20]]] alternating =
     Inr (\<lparr>amplitudes = [[0, 0], [1, 0]],
           phases = [[float_mod 0 (2 * pi), float_mod 0 (2 * pi)],
                     [float_mod 0 (2 * pi), float_mod 1 (2 * pi)]],
           entanglement = []\<rparr>, alternating)"
  by (simp add: analyze_quantum_state_def small_engine_def alternating_def Let_def upt_2
       collapsed_state_def collapsed_row_def normalized_state_def in_some_pair_def)

text \<open>
  C2. The amplitude matrix of an analysis has \<open>D\<close> rows of \<open>D\<close> entries; every
  row sums to 1 within \<open>1e-9\<close> or consists of zeros only, and it consists of zeros
  only exactly when the row of \<open>collapsed_state\<close> it was divided from sums to zero.
\<close>

theorem amplitude_rows_sum_to_one_or_vanish:
  assumes "analyze_quantum_state E st g = Inr (sd, g')" and "i < dimensions E"
  shows "length (amplitudes sd) = dimensions E
         \<and> length (amplitudes sd ! i) = dimensions E
         \<and> (\<bar>sum_list (amplitudes sd ! i) - 1\<bar> \<le> 1 / 10 ^ 9
              \<or> list_all (\<lambda>a. a = 0) (amplitudes sd ! i))
         \<and> (list_all (\<lambda>a. a = 0) (amplitudes sd ! i)
              \<longleftrightarrow> sum_list (collapsed_state (dimensions E) st ! i) = 0)"
proof -
  define c where "c = collapsed_state (dimensions E) st"
  from analyze_quantum_state_result[OF assms(1)]
  have a: "amplitudes sd = normalized_state c" by (simp add: c_def)
  have lc: "length c = dimensions E" by (simp add: c_def length_collapsed_state)
  have row: "amplitudes sd ! i =
      map (\<lambda>x. if sum_list (c ! i) \<noteq> 0 then x / sum_list (c ! i) else 0) (c ! i)"
    using a lc assms(2) by (simp add: normalized_state_nth)
  note rs = normalized_row_sum[of "c ! i"]
  have len: "length (amplitudes sd) = dimensions E"
    using a lc by (simp add: length_normalized_state)
  have rlen: "length (amplitudes sd ! i) = dimensions E"
    using row assms(2) by (simp add: c_def length_collapsed_row)
  have zero: "list_all (\<lambda>a. a = 0) (amplitudes sd ! i) \<longleftrightarrow> sum_list (c ! i) = 0"
    using rs row by simp
  have one: "\<bar>sum_list (amplitudes sd ! i) - 1\<bar> \<le> 1 / 10 ^ 9
              \<or> list_all (\<lambda>a. a = 0) (amplitudes sd ! i)"
  proof (cases "sum_list (c ! i) = 0")
    case True
    with zero show ?thesis by simp
  next
    case False
    with rs row have "sum_list (amplitudes sd ! i) = 1" by simp
    then show ?thesis by simp
  qed
  from len rlen one zero show ?thesis by (simp add: c_def)
qed

theorem amplitude_rows_sum_to_one_or_vanish_witness:
  "length [[0, 0], [1, 0 :: real]] = 2
   \<and> list_all (\<lambda>a. a = 0) ([[0, 0], [1, 0 :: real]] ! 0)
   \<and> sum_list (collapsed_state 2 [[[0]], [[19 / 20]]] ! 0) = 0
   \<and> \<bar>sum_list ([[0, 0], [1, 0 :: real]] ! Suc 0) - 1\<bar> \<le> 1 / 10 ^ 9
   \<and> sum_list (collapsed_state 2 [[[0]], [[19 / 20]]] ! Suc 0) = 19 / 20"
proof -
  have D: "dimensions (small_engine\<lparr>entanglement_pairs := [(0, 1)]\<rparr>) = 2"
    by (simp add: small_engine_def)
  have i0: "0 < dimensions (small_engine\<lparr>entanglement_pairs := [(0, 1)]\<rparr>)"
    by (simp add: small_engine_def)
  have i1: "Suc 0 < dimensions (small_engine\<lparr>entanglement_pairs := [(0, 1)]\<rparr>)"
    by (simp add: small_engine_def)
  from amplitude_rows_sum_to_one_or_vanish[OF small_analysis i0]
       amplitude_rows_sum_to_one_or_vanish[OF small_analysis i1] D
  show ?thesis
    by (simp add: collapsed_state_def collapsed_row_def upt_2)
qed

text \<open>
  C7. The phase matrix of an analysis has \<open>D\<close> rows of \<open>D\<close> entries, each in
  \<open>[0, 2\<pi>)\<close>. The entry of a cell whose row or column index occurs in a pair is
  the value \<open>random.uniform(0, 2\<pi>)\<close> returned at the cell's own position in the
  sequence of draws; the entry of any other cell is \<open>(i * j) % (2\<pi>)\<close>.
\<close>

theorem phases_in_range_and_origin:
  assumes "library_contract n g"
    and "analyze_quantum_state E st g = Inr (sd, g')"
    and "i < dimensions E" and "j < dimensions E"
  shows "length (phases sd) = dimensions E \<and> length (phases sd ! i) = dimensions E
         \<and> 0 \<le> phases sd ! i ! j \<and> phases sd ! i ! j < 2 * pi
         \<and> (if in_some_pair (entanglement_pairs E) i j
            then phases sd ! i ! j =
                   fst (random_uniform 0 (2 * pi)
                          (g\<lparr>fpos := fpos g
                                + draws_before (entanglement_pairs E) (dimensions E) i j\<rparr>))
            else phases sd ! i ! j = float_mod (real (i * j)) (2 * pi))"
proof -
  note r = analyze_quantum_state_result[OF assms(2)]
  from r assms(3,4) have cell: "phases sd ! i ! j =
      (if in_some_pair (entanglement_pairs E) i j
       then 2 * pi * floats g (fpos g + draws_before (entanglement_pairs E) (dimensions E) i j)
       else float_mod (real (i * j)) (2 * pi))" by simp
  from r assms(3) have shape: "length (phases sd) = dimensions E"
    "length (phases sd ! i) = dimensions E" by simp_all
  have range: "0 \<le> phases sd ! i ! j \<and> phases sd ! i ! j < 2 * pi"
  proof (cases "in_some_pair (entanglement_pairs E) i j")
    case True
    define u where "u = floats g (fpos g + draws_before (entanglement_pairs E) (dimensions E) i j)"
    from assms(1) have "0 \<le> u" "u < 1" by (simp_all add: library_contract_def u_def)
    moreover from cell True have "phases sd ! i ! j = 2 * pi * u" by (simp add: u_def)
    ultimately show ?thesis by simp
  next
    case False
    with cell float_mod_range[of "2 * pi" "real (i * j)"] show ?thesis by simp
  qed
  from cell shape range show ?thesis
    by (simp add: random_uniform_def random_random_def)
qed

theorem phases_in_range_and_origin_witness:
  "0 \<le> [[pi / 2, pi / 2], [pi / 2, pi / 2]] ! 0 ! Suc 0
   \<and> [[pi / 2, pi / 2], [pi / 2, pi / 2]] ! 0 ! Suc 0 < 2 * pi
   \<and> [[pi / 2, pi / 2], [pi / 2, pi / 2]] ! 0 ! Suc 0 =
       fst (random_uniform 0 (2 * pi) (alternating\<lparr>fpos := 3, ipos := 2\<rparr>))
   \<and> 0 \<le> float_mod 1 (2 * pi) \<and> float_mod 1 (2 * pi) < 2 * pi"
proof -
  have c: "library_contract 2 (alternating\<lparr>fpos := 2, ipos := 2\<rparr>)"
    by (simp add: library_contract_def alternating_def)
  have c0: "library_contract 2 alternating"
    by (simp add: library_contract_def alternating_def)
  have i: "0 < dimensions (small_engine\<lparr>entanglement_pairs := [(0, 1)]\<rparr>)"
    and j: "Suc 0 < dimensions (small_engine\<lparr>entanglement_pairs := [(0, 1)]\<rparr>)"
    and j0: "Suc 0 < dimensions small_engine"
    by (simp_all add: small_engine_def)
  have before: "draws_before [(0, 1)] 2 0 (Suc 0) = 1"
    by (simp add: draws_before_def in_some_pair_def)
  from phases_in_range_and_origin[OF c small_analysis i j]
       phases_in_range_and_origin[OF c0 small_analysis_uncoupled j0 j0] before
  show ?thesis
    by (simp add: small_engine_def in_some_pair_def alternating_def
          random_uniform_def random_random_def)
qed


section \<open>The uniqueness score\<close>

lemma entropy_fold:
  "foldl (\<lambda>e a. if a > 0 then e - a * log 2 a else e) e0 amps
     = e0 - sum_list (map (\<lambda>a. if a > 0 then a * log 2 a else 0) amps)"
  by (induction amps arbitrary: e0) simp_all

lemma entropy_term_nonpos:
  assumes "0 \<le> a" "a \<le> 1"
  shows "(if a > 0 then a * log 2 a else 0) \<le> 0"
proof (cases "a > 0")
  case False
  then show ?thesis by simp
next
  case True
  with assms(2) have "log 2 a \<le> 0" by simp
  with True have "a * log 2 a \<le> 0" by (simp add: mult_nonneg_nonpos)
  with True show ?thesis by simp
qed

lemma entropy_sum_nonpos:
  assumes "unit_values amps"
  shows "sum_list (map (\<lambda>a. if a > 0 then a * log 2 a else 0) amps) \<le> 0"
  using assms
proof (induction amps)
  case Nil
  then show ?case by simp
next
  case (Cons a amps)
  from Cons.prems have a: "0 \<le> a" "a \<le> 1" and rest: "unit_values amps"
    by (simp_all add: unit_values_def)
  from entropy_term_nonpos[OF a] Cons.IH[OF rest] show ?case by simp
qed

lemma unit_values_concat: "list_all unit_values m \<Longrightarrow> unit_values (concat m)"
  by (induction m) (simp_all add: unit_values_def)

lemma length_concat_rows:
  "list_all (\<lambda>row. length row = n) m \<Longrightarrow> length (concat m) = length m * n"
  by (induction m) simp_all

lemma coupling_density_unit:
  assumes "0 < D"
  shows "0 \<le> real (D div 2) / (real D / 2) \<and> real (D div 2) / (real D / 2) \<le> 1"
proof -
  have "D div 2 * 2 \<le> D" by simp
  then have "real (D div 2 * 2) \<le> real D" by (rule of_nat_mono)
  then have "real (D div 2) \<le> real D / 2" by simp
  moreover have "0 < real D / 2" using assms by simp
  ultimately show ?thesis by simp
qed

lemma calculate_uniqueness_value:
  assumes D: "0 < dimensions E"
    and len: "length (concat (amplitudes sd)) = dimensions E * dimensions E"
    and unit: "list_all unit_values (amplitudes sd)"
    and pairs: "length (entanglement sd) = dimensions E div 2"
  shows "\<exists>u. calculate_uniqueness E sd = Inr u
            \<and> u = spec_uniqueness (dimensions E) (amplitudes sd) (entanglement sd)
            \<and> 0 \<le> u \<and> u \<le> 1"
proof -
  define D where "D = dimensions E"
  define S where "S = sum_list (map (\<lambda>a. if a > 0 then a * log 2 a else 0) (concat (amplitudes sd)))"
  define ef where "ef = real (D div 2) / (real D / 2)"
  define ne where "ne = (if log 2 (real (D * D)) > 0 then (- S) / log 2 (real (D * D)) else 0)"
  have Dpos: "0 < D" using assms(1) by (simp add: D_def)
  have S: "S \<le> 0" unfolding S_def by (rule entropy_sum_nonpos[OF unit_values_concat[OF unit]])
  have efr: "0 \<le> ef" "ef \<le> 1" using coupling_density_unit[OF Dpos] by (simp_all add: ef_def)
  have ne0: "0 \<le> ne"
  proof (cases "log 2 (real (D * D)) > 0")
    case True
    with S have "0 \<le> (- S) / log 2 (real (D * D))" by (intro divide_nonneg_pos) simp_all
    with True show ?thesis by (simp add: ne_def)
  next
    case False
    then show ?thesis by (simp add: ne_def)
  qed
  have code: "calculate_uniqueness E sd = Inr (min 1 (ne * 0.7 + ef * 0.3))"
    unfolding calculate_uniqueness_def Let_def entropy_fold len
    using D pairs by (simp add: S_def ne_def ef_def D_def)
  have guard: "(D\<^sup>2 \<le> 1) = (\<not> log 2 (real (D * D)) > 0)"
  proof (cases "D = 1")
    case True
    then show ?thesis by simp
  next
    case False
    with Dpos have "2 \<le> D" by simp
    then have "2 * 2 \<le> D * D" using mult_le_mono[of 2 D 2 D] by simp
    then have big: "1 < D * D" by simp
    then have "1 < real (D * D)" by (metis of_nat_1 of_nat_less_iff)
    then have "0 < log 2 (real (D * D))" by simp
    moreover from big have "\<not> D\<^sup>2 \<le> 1" by (simp add: power2_eq_square)
    ultimately show ?thesis by simp
  qed
  have spec: "spec_uniqueness D (amplitudes sd) (entanglement sd)
                = min 1 (max 0 (0.7 * ne + 0.3 * min 1 (max 0 ef)))"
    using guard pairs
    by (simp add: spec_uniqueness_def clamp_def Let_def S_def ne_def ef_def D_def power2_eq_square)
  have "0 \<le> ne * 0.7 + ef * 0.3" using ne0 efr by simp
  with efr have same: "min 1 (max 0 (0.7 * ne + 0.3 * min 1 (max 0 ef))) = min 1 (ne * 0.7 + ef * 0.3)"
    by (simp add: mult.commute)
  have "0 \<le> min 1 (ne * 0.7 + ef * 0.3)" "min 1 (ne * 0.7 + ef * 0.3) \<le> 1"
    using ne0 efr by simp_all
  with code spec same show ?thesis by (simp add: D_def)
qed


section \<open>The picture\<close>

lemma py_int_byte:
  assumes "0 \<le> c" "c \<le> 1"
  shows "0 \<le> py_int (c * 255) \<and> py_int (c * 255) \<le> 255"
proof -
  have lo: "0 \<le> c * 255" using assms(1) by simp
  have hi: "c * 255 \<le> 255" using assms(2) by simp
  from lo have "py_int (c * 255) = \<lfloor>c * 255\<rfloor>" by (simp add: py_int_def)
  moreover from lo have "0 \<le> \<lfloor>c * 255\<rfloor>" by simp
  moreover from hi have "\<lfloor>c * 255\<rfloor> \<le> 255" by (simp add: floor_le_iff)
  ultimately show ?thesis by simp
qed

lemma scaled_unit:
  fixes v w :: real
  assumes "0 \<le> v" "v \<le> 1" "0 \<le> w" "w \<le> 1"
  shows "0 \<le> v * w \<and> v * w \<le> 1"
  using assms by (simp add: mult_le_one)

lemma hsv_to_rgb_valid:
  assumes hue: "0 \<le> hue" and s: "0 \<le> saturation" "saturation \<le> 1"
    and v: "0 \<le> val" "val \<le> 1"
  shows "case hsv_to_rgb hue saturation val of (r, g, b) \<Rightarrow>
           0 \<le> r \<and> r \<le> 255 \<and> 0 \<le> g \<and> g \<le> 255 \<and> 0 \<le> b \<and> b \<le> 255"
proof -
  define h where "h = hue / 60"
  define f where "f = h - of_int (py_int h)"
  define p where "p = val * (1 - saturation)"
  define q where "q = val * (1 - saturation * f)"
  define t where "t = val * (1 - saturation * (1 - f))"
  have "0 \<le> h" using hue by (simp add: h_def)
  then have "py_int h = \<lfloor>h\<rfloor>" by (simp add: py_int_def)
  then have f: "0 \<le> f" "f \<le> 1" unfolding f_def by linarith+
  have sf: "0 \<le> saturation * f \<and> saturation * f \<le> 1"
    using s f by (rule scaled_unit)
  have sf': "0 \<le> saturation * (1 - f) \<and> saturation * (1 - f) \<le> 1"
    using s f by (intro scaled_unit) simp_all
  have P: "0 \<le> p \<and> p \<le> 1" unfolding p_def using v s by (intro scaled_unit) simp_all
  have Q: "0 \<le> q \<and> q \<le> 1" unfolding q_def using v sf by (intro scaled_unit) simp_all
  have T: "0 \<le> t \<and> t \<le> 1" unfolding t_def using v sf' by (intro scaled_unit) simp_all
  note bp = py_int_byte[of p] and bq = py_int_byte[of q] and bt = py_int_byte[of t]
    and bv = py_int_byte[of val]
  have "hsv_to_rgb hue saturation val =
          (case (if py_int h = 0 then (val, t, p)
                 else if py_int h = 1 then (q, val, p)
                 else if py_int h = 2 then (p, val, t)
                 else if py_int h = 3 then (p, q, val)
                 else if py_int h = 4 then (t, p, val)
                 else (val, p, q)) of
             (r, g, b) \<Rightarrow> (py_int (r * 255), py_int (g * 255), py_int (b * 255)))"
    by (simp add: hsv_to_rgb_def Let_def h_def f_def p_def q_def t_def)
  with bp bq bt bv P Q T v show ?thesis by simp
qed

lemma draw_ellipse_valid:
  assumes "valid_rgba fill" "valid_pixels R px"
  shows "valid_pixels R (draw_ellipse paints box fill px)"
proof -
  have row: "length (map (\<lambda>(x, c). if paints box (x, y) then fill else c) (zip [0..<length r] r)) = length r
      \<and> list_all valid_rgba (map (\<lambda>(x, c). if paints box (x, y) then fill else c) (zip [0..<length r] r))"
    if "list_all valid_rgba r" for r y
    using that assms(1) by (auto simp: list_all_iff dest: set_zip_rightD)
  from assms(2) have len: "length px = R"
    and rows: "\<forall>r\<in>set px. length r = R \<and> list_all valid_rgba r"
    by (simp_all add: valid_pixels_def list_all_iff)
  have "length (draw_ellipse paints box fill px) = R"
    using len by (simp add: draw_ellipse_def)
  moreover have "length r' = R \<and> list_all valid_rgba r'"
    if "r' \<in> set (draw_ellipse paints box fill px)" for r'
  proof -
    from that obtain y r where "r \<in> set px"
      and r': "r' = map (\<lambda>(x, c). if paints box (x, y) then fill else c) (zip [0..<length r] r)"
      by (auto simp: draw_ellipse_def dest: set_zip_rightD)
    with rows row[of r y] show ?thesis by simp
  qed
  ultimately show ?thesis by (simp add: valid_pixels_def list_all_iff)
qed

lemma line_step_valid:
  assumes "valid_pixels R px"
  shows "valid_pixels R (line_step paints E pair px k)"
proof -
  obtain dim1 dim2 where pair: "pair = (dim1, dim2)" by (cases pair) blast
  define hue where "hue = float_mod (real k / 100 * 360) 360"
  obtain r g b where c: "hsv_to_rgb hue 0.8 0.9 = (r, g, b)"
    by (cases "hsv_to_rgb hue 0.8 0.9") blast
  have "0 \<le> hue" using float_mod_range[of 360 "real k / 100 * 360"] by (simp add: hue_def)
  from hsv_to_rgb_valid[OF this, of "0.8" "0.9"] c
  have "valid_rgba (r, g, b, 200)" by (simp add: valid_rgba_def)
  from draw_ellipse_valid[OF this assms] pair c show ?thesis
    by (simp add: line_step_def Let_def hue_def)
qed

lemma lines_valid:
  "valid_pixels R px \<Longrightarrow> valid_pixels R (foldl (line_step paints E pair) px ks)"
  by (induction ks arbitrary: px) (simp_all add: line_step_valid)

lemma all_lines_valid:
  "valid_pixels R px \<Longrightarrow>
     valid_pixels R (foldl (\<lambda>px pair. foldl (line_step paints E pair) px [0..<100]) px pairs)"
  by (induction pairs arbitrary: px) (simp_all add: lines_valid)


lemma py_int_nonneg: "0 \<le> x \<Longrightarrow> 0 \<le> py_int x"
  by (simp add: py_int_def)

lemma grid_pixel_result:
  assumes amp: "length (amplitudes sd) = dimensions E"
      "\<forall>i<dimensions E. length (amplitudes sd ! i) = dimensions E
                        \<and> unit_values (amplitudes sd ! i)"
    and ph: "length (phases sd) = dimensions E"
      "\<forall>i<dimensions E. length (phases sd ! i) = dimensions E
                        \<and> (\<forall>j<dimensions E. 0 \<le> phases sd ! i ! j)"
  shows "\<exists>c. grid_pixel E sd x y = Inr c \<and> (\<forall>rgba. c = Some rgba \<longrightarrow> valid_rgba rgba)"
proof -
  define D where "D = dimensions E"
  define i where "i = py_int (real y / (real (resolution E) / real D))"
  define j where "j = py_int (real x / (real (resolution E) / real D))"
  have i0: "0 \<le> i" unfolding i_def by (intro py_int_nonneg) simp
  have j0: "0 \<le> j" unfolding j_def by (intro py_int_nonneg) simp
  show ?thesis
  proof (cases "i < int D \<and> j < int D")
    case False
    then have outside: "(i < int D \<and> j < int D) = False" by simp
    show ?thesis
      unfolding grid_pixel_def Let_def i_def[symmetric] j_def[symmetric] D_def[symmetric] outside
      by simp
  next
    case True
    from True i0 have ni: "nat i < D" by (simp add: nat_less_iff)
    from True j0 have nj: "nat j < D" by (simp add: nat_less_iff)
    define a where "a = amplitudes sd ! nat i ! nat j"
    define p where "p = phases sd ! nat i ! nat j"
    from amp ni nj have ma: "matrix_at (amplitudes sd) (nat i) (nat j) = Inr a"
      by (simp add: matrix_at_def a_def D_def)
    from ph ni nj have mp: "matrix_at (phases sd) (nat i) (nat j) = Inr p"
      by (simp add: matrix_at_def p_def D_def)
    from amp(2) ni nj have a: "0 \<le> a" "a \<le> 1"
      by (simp_all add: a_def D_def unit_values_def list_all_length)
    from ph(2) ni nj have p: "0 \<le> p" by (simp add: p_def D_def)
    obtain r g b where c: "hsv_to_rgb (p / (2 * pi) * 360) (0.8 + a * 0.2) (0.5 + a * 0.5) = (r, g, b)"
      by (cases "hsv_to_rgb (p / (2 * pi) * 360) (0.8 + a * 0.2) (0.5 + a * 0.5)") blast
    have hue: "0 \<le> p / (2 * pi) * 360" using p by simp
    have sat: "0 \<le> 0.8 + a * 0.2" "0.8 + a * 0.2 \<le> 1" using a by simp_all
    have val: "0 \<le> 0.5 + a * 0.5" "0.5 + a * 0.5 \<le> 1" using a by simp_all
    from hsv_to_rgb_valid[OF hue sat val] c
    have rgb: "0 \<le> r \<and> r \<le> 255 \<and> 0 \<le> g \<and> g \<le> 255 \<and> 0 \<le> b \<and> b \<le> 255" by simp
    have al: "0 \<le> py_int (127 + 128 * a) \<and> py_int (127 + 128 * a) \<le> 255"
    proof -
      define z where "z = 127 + 128 * a"
      have lo: "0 \<le> z" using a by (simp add: z_def)
      have hi: "z \<le> 255" using a by (simp add: z_def)
      from lo have "py_int z = \<lfloor>z\<rfloor>" by (simp add: py_int_def)
      moreover from lo have "0 \<le> \<lfloor>z\<rfloor>" by simp
      moreover from hi have "\<lfloor>z\<rfloor> \<le> 255" by (simp add: floor_le_iff)
      ultimately show ?thesis by (simp add: z_def)
    qed
    have "grid_pixel E sd x y = Inr (Some (r, g, b, py_int (127 + 128 * a)))"
      using True ma mp c
      unfolding grid_pixel_def Let_def i_def[symmetric] j_def[symmetric] D_def[symmetric]
      by (simp del: divide_divide_eq_right)
    with rgb al show ?thesis by (simp add: valid_rgba_def)
  qed
qed

lemma fill_grid_result:
  assumes amp: "length (amplitudes sd) = dimensions E"
      "\<forall>i<dimensions E. length (amplitudes sd ! i) = dimensions E
                        \<and> unit_values (amplitudes sd ! i)"
    and ph: "length (phases sd) = dimensions E"
      "\<forall>i<dimensions E. length (phases sd ! i) = dimensions E
                        \<and> (\<forall>j<dimensions E. 0 \<le> phases sd ! i ! j)"
  shows "\<exists>px. fill_grid E sd = Inr px \<and> valid_pixels (resolution E) px"
proof -
  note gp = grid_pixel_result[OF amp ph]
  have noerr: "\<not> isl (grid_pixel E sd x y)" for x y
    using gp[of x y] by auto
  have pixel: "valid_rgba (case grid_pixel E sd x y of Inr (Some c) \<Rightarrow> c | _ \<Rightarrow> (0, 0, 0, 0))"
    for x y
  proof -
    from gp[of x y] obtain c where c: "grid_pixel E sd x y = Inr c"
      "\<forall>rgba. c = Some rgba \<longrightarrow> valid_rgba rgba" by blast
    show ?thesis
    proof (cases c)
      case None
      with c show ?thesis by (simp add: valid_rgba_def)
    next
      case (Some rgba)
      with c show ?thesis by simp
    qed
  qed
  define px where "px = map (\<lambda>y. map (\<lambda>x. case grid_pixel E sd x y of
                                        Inr (Some c) \<Rightarrow> c
                                      | _ \<Rightarrow> (0, 0, 0, 0)) [0..<resolution E]) [0..<resolution E]"
  have "fill_grid E sd = Inr px"
    using noerr by (simp add: fill_grid_def Let_def px_def list_ex_iff)
  moreover have "valid_pixels (resolution E) px"
    using pixel by (simp add: valid_pixels_def px_def list_all_iff)
  ultimately show ?thesis by blast
qed

lemma visualize_quantum_signature_result:
  assumes "0 < dimensions E"
    and amp: "length (amplitudes sd) = dimensions E"
      "\<forall>i<dimensions E. length (amplitudes sd ! i) = dimensions E
                        \<and> unit_values (amplitudes sd ! i)"
    and ph: "length (phases sd) = dimensions E"
      "\<forall>i<dimensions E. length (phases sd ! i) = dimensions E
                        \<and> (\<forall>j<dimensions E. 0 \<le> phases sd ! i ! j)"
  shows "\<exists>img. visualize_quantum_signature paints E sd = Inr img
               \<and> valid_image (resolution E) img"
proof -
  from fill_grid_result[OF amp ph] obtain px where
    px: "fill_grid E sd = Inr px" "valid_pixels (resolution E) px" by blast
  from all_lines_valid[OF px(2)] px(1) assms(1) show ?thesis
    by (simp add: visualize_quantum_signature_def valid_image_def)
qed


section \<open>The whole call\<close>

lemma calculate_complex_hash_fails:
  assumes "fs file_path = None \<or> (\<exists>f. fs file_path = Some f \<and> \<not> readable f)"
  shows "calculate_complex_hash H fs file_path = Inl (OSError file_path)"
  using assms by (auto simp: calculate_complex_hash_def)

lemma calculate_complex_hash_reads:
  assumes "fs file_path = Some f" "readable f"
  shows "calculate_complex_hash H fs file_path = Inr (hash_whole H (content f))"
proof (cases "length (content f) < 50 * 1024 * 1024")
  case True
  with assms show ?thesis by (simp add: calculate_complex_hash_def)
next
  case False
  have "hash_streamed H (content f) = hash_whole H (content f)"
    by (simp add: hash_streamed_def hash_whole_def read_blocks_appends)
  with False assms show ?thesis by (simp add: calculate_complex_hash_def)
qed

lemma analysis_amplitudes:
  assumes "unit_state st" and "analyze_quantum_state E st g = Inr (sd, g')"
  shows "length (amplitudes sd) = dimensions E
         \<and> (\<forall>i<dimensions E. length (amplitudes sd ! i) = dimensions E
                                \<and> unit_values (amplitudes sd ! i))
         \<and> list_all unit_values (amplitudes sd)
         \<and> length (concat (amplitudes sd)) = dimensions E * dimensions E
         \<and> entanglement sd = entanglement_pairs E"
proof -
  define D where "D = dimensions E"
  define c where "c = collapsed_state D st"
  from analyze_quantum_state_result[OF assms(2)]
  have a: "amplitudes sd = normalized_state c" and e: "entanglement sd = entanglement_pairs E"
    by (simp_all add: c_def D_def)
  have lc: "length c = D" by (simp add: c_def length_collapsed_state)
  have len: "length (amplitudes sd) = D" using a lc by (simp add: length_normalized_state)
  have row: "length (amplitudes sd ! i) = D \<and> unit_values (amplitudes sd ! i)" if "i < D" for i
  proof -
    from that lc have "amplitudes sd ! i =
        map (\<lambda>x. if sum_list (c ! i) \<noteq> 0 then x / sum_list (c ! i) else 0) (c ! i)"
      by (simp add: a normalized_state_nth)
    then have "length (amplitudes sd ! i) = D"
      using that by (simp add: c_def length_collapsed_row)
    moreover have "unit_values (amplitudes sd ! i)"
      using amplitudes_unit[OF assms(1) that] by (simp add: a c_def)
    ultimately show ?thesis by blast
  qed
  have all: "list_all (\<lambda>r. length r = D) (amplitudes sd)" "list_all unit_values (amplitudes sd)"
    using row len by (simp_all add: list_all_length)
  from length_concat_rows[OF all(1)] len have "length (concat (amplitudes sd)) = D * D" by simp
  with len row all(2) e show ?thesis by (simp add: D_def)
qed

lemma analysis_phases:
  assumes "library_contract n g" and "analyze_quantum_state E st g = Inr (sd, g')"
  shows "length (phases sd) = dimensions E
         \<and> (\<forall>i<dimensions E. length (phases sd ! i) = dimensions E
                                \<and> (\<forall>j<dimensions E. 0 \<le> phases sd ! i ! j))"
proof -
  note r = analyze_quantum_state_result[OF assms(2)]
  have "0 \<le> phases sd ! i ! j" if "i < dimensions E" "j < dimensions E" for i j
  proof (cases "in_some_pair (entanglement_pairs E) i j")
    case True
    with r that have "phases sd ! i ! j = 2 * pi * floats g
        (fpos g + draws_before (entanglement_pairs E) (dimensions E) i j)" by simp
    moreover from assms(1) have "0 \<le> floats g
        (fpos g + draws_before (entanglement_pairs E) (dimensions E) i j)"
      by (simp add: library_contract_def)
    ultimately show ?thesis by simp
  next
    case False
    with r that have "phases sd ! i ! j = float_mod (real (i * j)) (2 * pi)" by simp
    with float_mod_range[of "2 * pi" "real (i * j)"] show ?thesis by simp
  qed
  with r show ?thesis by simp
qed

lemma generate_signature_inversion:
  assumes "generate_signature H paints fs E g file_path evolution = Some (Some r, E')"
  shows "\<exists>file_hash st g1 evolved g2 sd g3 img u.
           calculate_complex_hash H fs file_path = Inr file_hash
           \<and> hash_to_quantum_state E file_hash g = Some (Inr (st, E', g1))
           \<and> (if evolution then evolution_rounds E' (evolution_steps E') st g1
               else Inr (st, g1)) = Inr (evolved, g2)
           \<and> analyze_quantum_state E' evolved g2 = Inr (sd, g3)
           \<and> visualize_quantum_signature paints E' sd = Inr img
           \<and> calculate_uniqueness E' sd = Inr u
           \<and> r = \<lparr>signature_data = sd, signature_image = img,
                   confidence = confidence_level E', uniqueness_score = u\<rparr>"
proof -
  from assms obtain file_hash where h: "calculate_complex_hash H fs file_path = Inr file_hash"
    by (cases "calculate_complex_hash H fs file_path") (simp_all add: generate_signature_def)
  from assms h obtain st E1 g1 where
    q: "hash_to_quantum_state E file_hash g = Some (Inr (st, E1, g1))"
    by (cases "hash_to_quantum_state E file_hash g")
       (auto simp: generate_signature_def split: sum.splits)
  define ev where "ev = (if evolution then evolution_rounds E1 (evolution_steps E1) st g1
                         else Inr (st, g1))"
  from assms h q obtain evolved g2 where e: "ev = Inr (evolved, g2)"
    by (cases ev) (auto simp: generate_signature_def ev_def)
  from assms h q e obtain sd g3 where a: "analyze_quantum_state E1 evolved g2 = Inr (sd, g3)"
    by (cases "analyze_quantum_state E1 evolved g2")
       (auto simp: generate_signature_def ev_def[symmetric])
  from assms h q e a obtain img where v: "visualize_quantum_signature paints E1 sd = Inr img"
    by (cases "visualize_quantum_signature paints E1 sd")
       (auto simp: generate_signature_def ev_def[symmetric])
  from assms h q e a v obtain u where u: "calculate_uniqueness E1 sd = Inr u"
    by (cases "calculate_uniqueness E1 sd")
       (auto simp: generate_signature_def ev_def[symmetric])
  from assms h q e a v u have "E' = E1"
    and "r = \<lparr>signature_data = sd, signature_image = img,
               confidence = confidence_level E1, uniqueness_score = u\<rparr>"
    by (auto simp: generate_signature_def ev_def[symmetric])
  with h q e a v u show ?thesis unfolding ev_def by blast
qed


lemma score_of_pipeline:
  assumes q: "hash_to_quantum_state E file_hash g = Some (Inr (st, E', g1))"
    and e: "(if evolution then evolution_rounds E' (evolution_steps E') st g1
             else Inr (st, g1)) = Inr (evolved, g2)"
    and a: "analyze_quantum_state E' evolved g2 = Inr (sd, g3)"
  shows "dimensions E' = dimensions E \<and> resolution E' = resolution E
         \<and> unit_state evolved \<and> length evolved = dimensions E
         \<and> floats g2 = floats g \<and> ints g2 = ints g
         \<and> (\<exists>u. calculate_uniqueness E' sd = Inr u
                \<and> u = spec_uniqueness (dimensions E) (amplitudes sd) (entanglement sd)
                \<and> 0 \<le> u \<and> u \<le> 1)"
proof -
  note qr = hash_to_quantum_state_result[OF q]
  from qr have "E' = E\<lparr>entanglement_pairs := entanglement_pairs E'\<rparr>" by simp
  then have "dimensions E' = dimensions (E\<lparr>entanglement_pairs := entanglement_pairs E'\<rparr>)"
    and "resolution E' = resolution (E\<lparr>entanglement_pairs := entanglement_pairs E'\<rparr>)"
    by simp_all
  then have same: "dimensions E' = dimensions E" "resolution E' = resolution E" by simp_all
  have ev: "unit_state evolved \<and> length evolved = dimensions E
            \<and> floats g2 = floats g \<and> ints g2 = ints g"
  proof (cases evolution)
    case True
    with e have "evolution_rounds E' (evolution_steps E') st g1 = Inr (evolved, g2)" by simp
    from evolution_rounds_result[OF this] qr show ?thesis by simp
  next
    case False
    with e qr show ?thesis by simp
  qed
  note am = analysis_amplitudes[OF _ a]
  from ev am have shape: "length (concat (amplitudes sd)) = dimensions E' * dimensions E'"
    "list_all unit_values (amplitudes sd)" "entanglement sd = entanglement_pairs E'"
    by simp_all
  from qr same have D: "0 < dimensions E'" by simp
  from shape(3) qr same have pairs: "length (entanglement sd) = dimensions E' div 2" by simp
  from calculate_uniqueness_value[OF D shape(1,2) pairs] same ev show ?thesis by simp
qed

lemma generate_signature_succeeds:
  assumes entry: "fs file_path = Some f" "readable f"
    and D: "0 < dimensions E"
    and c: "library_contract (dimensions E) g"
    and ns: "never_stuck g"
  shows "\<exists>r E'. generate_signature H paints fs E g file_path evolution = Some (Some r, E')
           \<and> length (entanglement_pairs E') = dimensions E div 2
           \<and> 0 \<le> uniqueness_score r \<and> uniqueness_score r \<le> 1
           \<and> valid_image (resolution E) (signature_image r)"
proof -
  define file_hash where "file_hash = hash_whole H (content f)"
  have h: "calculate_complex_hash H fs file_path = Inr file_hash"
    using calculate_complex_hash_reads[of fs file_path f H] entry by (simp add: file_hash_def)
  from hash_to_quantum_state_returns[OF D ns] obtain st E1 g1 where
    q: "hash_to_quantum_state E file_hash g = Some (Inr (st, E1, g1))" by blast
  note qr = hash_to_quantum_state_result[OF q]
  have inrange: "list_all (\<lambda>(dim1, dim2). dim1 < length st \<and> dim2 < length st)
                   (entanglement_pairs E1)"
  proof -
    from qr have "list_all (proper_pair g) (entanglement_pairs E1)" by simp
    then show ?thesis
      using proper_pair_in_range[OF c] qr by (auto simp: list_all_iff)
  qed
  obtain evolved g2 where
    e: "(if evolution then evolution_rounds E1 (evolution_steps E1) st g1
         else Inr (st, g1)) = Inr (evolved, g2)"
  proof (cases evolution)
    case True
    from evolution_rounds_returns[OF inrange, of "evolution_steps E1" g1]
    obtain st' g' where "evolution_rounds E1 (evolution_steps E1) st g1 = Inr (st', g')" by blast
    with True that show ?thesis by simp
  next
    case False
    with that show ?thesis by simp
  qed
  have len: "length evolved \<le> dimensions E1"
  proof (cases evolution)
    case True
    with e have "evolution_rounds E1 (evolution_steps E1) st g1 = Inr (evolved, g2)" by simp
    from evolution_rounds_result[OF this] qr
    have "length evolved = dimensions E" by simp
    moreover from qr have "E1 = E\<lparr>entanglement_pairs := entanglement_pairs E1\<rparr>" by simp
    then have "dimensions E1 = dimensions (E\<lparr>entanglement_pairs := entanglement_pairs E1\<rparr>)"
      by simp
    ultimately show ?thesis by simp
  next
    case False
    with e qr have "length evolved = dimensions E" by simp
    moreover from qr have "E1 = E\<lparr>entanglement_pairs := entanglement_pairs E1\<rparr>" by simp
    then have "dimensions E1 = dimensions (E\<lparr>entanglement_pairs := entanglement_pairs E1\<rparr>)"
      by simp
    ultimately show ?thesis by simp
  qed
  from analyze_quantum_state_returns[OF len] obtain sd g3 where
    a: "analyze_quantum_state E1 evolved g2 = Inr (sd, g3)" by blast
  note sp = score_of_pipeline[OF q e a]
  from sp obtain u where u: "calculate_uniqueness E1 sd = Inr u" "0 \<le> u" "u \<le> 1" by blast
  have c2: "library_contract (dimensions E) g2"
    using c sp by (simp add: library_contract_def)
  from sp have unit: "unit_state evolved" by simp
  note am = analysis_amplitudes[OF unit a]
  note ph = analysis_phases[OF c2 a]
  from sp D have D1: "0 < dimensions E1" by simp
  from am have am1: "length (amplitudes sd) = dimensions E1"
    and am2: "\<forall>i<dimensions E1. length (amplitudes sd ! i) = dimensions E1
                                \<and> unit_values (amplitudes sd ! i)" by simp_all
  from ph have ph1: "length (phases sd) = dimensions E1"
    and ph2: "\<forall>i<dimensions E1. length (phases sd ! i) = dimensions E1
                                \<and> (\<forall>j<dimensions E1. 0 \<le> phases sd ! i ! j)" by simp_all
  from visualize_quantum_signature_result[OF D1 am1 am2 ph1 ph2, of paints]
  obtain img where v: "visualize_quantum_signature paints E1 sd = Inr img"
    "valid_image (resolution E1) img" by blast
  have run: "generate_signature H paints fs E g file_path evolution =
      Some (Some \<lparr>signature_data = sd, signature_image = img,
                  confidence = confidence_level E1, uniqueness_score = u\<rparr>, E1)"
    using h q e a v(1) u(1) by (simp add: generate_signature_def)
  from run qr u v(2) sp show ?thesis by simp
qed


section \<open>A whole run on the small inputs\<close>

lemma draw_no_ellipse: "draw_ellipse no_ellipse box fill px = px"
proof -
  have row: "map (\<lambda>(x, c). c) (zip [0..<length r] r) = r" for r :: "rgba list"
    by (simp add: case_prod_unfold map_snd_zip)
  have "draw_ellipse no_ellipse box fill px = map (\<lambda>(y, r). r) (zip [0..<length px] px)"
    by (simp add: draw_ellipse_def no_ellipse_def row)
  then show ?thesis by (simp add: case_prod_unfold map_snd_zip)
qed

lemma line_step_no_ellipse: "line_step no_ellipse E pair px k = px"
  by (cases pair; cases "hsv_to_rgb (float_mod (real k / 100 * 360) 360) 0.8 0.9")
     (simp add: line_step_def Let_def draw_no_ellipse)

lemma lines_no_ellipse: "foldl (line_step no_ellipse E pair) px ks = px"
  by (induction ks) (simp_all add: line_step_no_ellipse)

lemma all_lines_no_ellipse:
  "foldl (\<lambda>px pair. foldl (line_step no_ellipse E pair) px [0..<100]) px pairs = px"
  by (induction pairs) (simp_all add: lines_no_ellipse)

lemma small_picture:
  "visualize_quantum_signature no_ellipse (small_engine\<lparr>entanglement_pairs := [(0, 1)]\<rparr>)
     \<lparr>amplitudes = [[0, 0], [1, 0]],
      phases = [[pi / 2, pi / 2], [pi / 2, pi / 2]],
      entanglement = [(0, 1)]\<rparr>
   = Inr \<lparr>width = 2, height = 2,
          pixels = [[(76, 127, 25, 127), (76, 127, 25, 127)],
                    [(127, 255, 0, 255), (76, 127, 25, 127)]]\<rparr>"
  by (simp add: visualize_quantum_signature_def all_lines_no_ellipse fill_grid_def Let_def
       small_engine_def upt_2 grid_pixel_def matrix_at_def py_int_def hsv_to_rgb_def)

lemma small_score:
  "calculate_uniqueness (small_engine\<lparr>entanglement_pairs := [(0, 1)]\<rparr>)
     \<lparr>amplitudes = [[0, 0], [1, 0]],
      phases = [[pi / 2, pi / 2], [pi / 2, pi / 2]],
      entanglement = [(0, 1)]\<rparr> = Inr (3 / 10)"
  by (simp add: calculate_uniqueness_def Let_def small_engine_def)

lemma small_run:
  "generate_signature small_hashlib no_ellipse small_fs small_engine alternating ''empty.bin'' False
     = Some (Some small_result, small_engine\<lparr>entanglement_pairs := [(0, 1)]\<rparr>)"
proof -
  have h: "calculate_complex_hash small_hashlib small_fs ''empty.bin'' = Inr [0, 255]"
    by (simp add: calculate_complex_hash_def small_fs_def hash_whole_def small_hashlib_def)
  have c: "confidence_level (small_engine\<lparr>entanglement_pairs := [(0, 1)]\<rparr>) = 0.95"
    by (simp add: small_engine_def)
  show ?thesis
    by (simp add: generate_signature_def h small_construction small_analysis small_picture
          small_score c small_result_def del: One_nat_def)
qed

section \<open>Failure, score, engine state and the empty file\<close>

lemma library_contract_alternating_init: "library_contract (dimensions init) alternating"
proof -
  have "k mod 2 < (8::nat)" for k :: nat
    using mod_less_divisor[of 2 k] by linarith
  then show ?thesis by (simp add: library_contract_def alternating_def init_def)
qed

lemma empty_file: "small_fs ''empty.bin'' = Some \<lparr>content = [], readable = True\<rparr>"
  by (simp add: small_fs_def)

lemma init_run:
  "\<exists>r E'. generate_signature small_hashlib no_ellipse small_fs init alternating ''empty.bin'' True
              = Some (Some r, E')
          \<and> length (entanglement_pairs E') = 4
          \<and> 0 \<le> uniqueness_score r \<and> uniqueness_score r \<le> 1
          \<and> valid_image 256 (signature_image r)"
proof -
  have r: "readable \<lparr>content = [], readable = True\<rparr>" by simp
  have D: "0 < dimensions init" by (simp add: init_def)
  from generate_signature_succeeds[where fs = small_fs and file_path = "''empty.bin''"
      and f = "\<lparr>content = [], readable = True\<rparr>" and E = init and g = alternating
      and H = small_hashlib and paints = no_ellipse and evolution = True]
    empty_file r D library_contract_alternating_init never_stuck_alternating
  show ?thesis by (simp add: init_def)
qed

lemma generate_signature_engine:
  assumes "generate_signature H paints fs E g file_path evolution = Some (res, E')"
  shows "E' = E \<or> (\<exists>file_hash st g1. hash_to_quantum_state E file_hash g = Some (Inr (st, E', g1)))"
proof (cases "calculate_complex_hash H fs file_path")
  case (Inl e)
  with assms show ?thesis by (simp add: generate_signature_def)
next
  case (Inr file_hash)
  show ?thesis
  proof (cases "hash_to_quantum_state E file_hash g")
    case None
    with assms Inr show ?thesis by (simp add: generate_signature_def)
  next
    case (Some outcome)
    show ?thesis
    proof (cases outcome)
      case (Inl e)
      with assms Inr Some show ?thesis by (simp add: generate_signature_def)
    next
      case (Inr built)
      obtain st E1 g1 where b: "built = (st, E1, g1)" by (cases built) auto
      from assms \<open>calculate_complex_hash H fs file_path = Inr file_hash\<close> Some Inr b
      have "E' = E1"
        by (auto simp: generate_signature_def split: sum.splits)
      with Some Inr b show ?thesis by blast
    qed
  qed
qed

text \<open>
  C1. When the path names no file, or a file that may not be opened,
  \<open>_calculate_complex_hash\<close> raises an \<open>OSError\<close> that carries the path, and
  \<open>generate_signature\<close> catches it and returns \<open>None\<close>, with the engine as it was.
\<close>

theorem unreadable_path_gives_none:
  assumes "fs file_path = None \<or> (\<exists>f. fs file_path = Some f \<and> \<not> readable f)"
  shows "calculate_complex_hash H fs file_path = Inl (OSError file_path)
         \<and> generate_signature H paints fs E g file_path evolution = Some (None, E)"
  using calculate_complex_hash_fails[where fs = fs and file_path = file_path and H = H] assms
  by (simp add: generate_signature_def)

theorem unreadable_path_gives_none_witness:
  "calculate_complex_hash small_hashlib small_fs ''missing.bin'' = Inl (OSError ''missing.bin'')
   \<and> generate_signature small_hashlib no_ellipse small_fs init alternating ''missing.bin'' True
       = Some (None, init)"
proof -
  have "small_fs ''missing.bin'' = None
        \<or> (\<exists>f. small_fs ''missing.bin'' = Some f \<and> \<not> readable f)"
    by (simp add: small_fs_def)
  with unreadable_path_gives_none[where fs = small_fs and file_path = "''missing.bin''"
      and H = small_hashlib and paints = no_ellipse and E = init and g = alternating
      and evolution = True]
  show ?thesis by blast
qed

theorem failure_value_holds_no_path:
  "generate_signature small_hashlib no_ellipse small_fs init alternating ''a.bin'' True
     = Some (None, init)
   \<and> generate_signature small_hashlib no_ellipse small_fs init alternating ''b.bin'' True
     = Some (None, init)
   \<and> ''a.bin'' \<noteq> ''b.bin''"
  by (simp add: generate_signature_def calculate_complex_hash_def small_fs_def)

text \<open>
  C3. The score of every successful call equals the score that the specification
  describes, computed from the amplitude matrix and the coupling list of the
  result, and lies in \<open>[0, 1]\<close>.
\<close>

theorem uniqueness_score_as_specified:
  assumes "generate_signature H paints fs E g file_path evolution = Some (Some r, E')"
  shows "uniqueness_score r
           = spec_uniqueness (dimensions E) (amplitudes (signature_data r))
               (entanglement (signature_data r))
         \<and> 0 \<le> uniqueness_score r \<and> uniqueness_score r \<le> 1"
proof -
  from generate_signature_inversion[OF assms]
  obtain file_hash st g1 evolved g2 sd g3 img u where
    q: "hash_to_quantum_state E file_hash g = Some (Inr (st, E', g1))"
    and e: "(if evolution then evolution_rounds E' (evolution_steps E') st g1
             else Inr (st, g1)) = Inr (evolved, g2)"
    and a: "analyze_quantum_state E' evolved g2 = Inr (sd, g3)"
    and u: "calculate_uniqueness E' sd = Inr u"
    and r: "r = \<lparr>signature_data = sd, signature_image = img,
                  confidence = confidence_level E', uniqueness_score = u\<rparr>"
    by blast
  from score_of_pipeline[OF q e a] u r show ?thesis by simp
qed

theorem uniqueness_score_as_specified_witness:
  "generate_signature small_hashlib no_ellipse small_fs small_engine alternating ''empty.bin'' False
     = Some (Some small_result, small_engine\<lparr>entanglement_pairs := [(0, 1)]\<rparr>)
   \<and> uniqueness_score small_result
       = spec_uniqueness 2 (amplitudes (signature_data small_result))
           (entanglement (signature_data small_result))
   \<and> uniqueness_score small_result = 3 / 10"
proof -
  note score = uniqueness_score_as_specified[OF small_run]
  have D: "dimensions small_engine = 2" by (simp add: small_engine_def)
  have u: "uniqueness_score small_result = 3 / 10" by (simp add: small_result_def)
  from score D have "uniqueness_score small_result
       = spec_uniqueness 2 (amplitudes (signature_data small_result))
           (entanglement (signature_data small_result))" by simp
  with small_run u show ?thesis by (intro conjI)
qed

text \<open>
  C4. A call changes no attribute of the engine except \<open>entanglement_pairs\<close>; after
  a successful call that attribute holds the coupling list of the call, the list
  the result carries as \<open>entanglement\<close>, with \<open>D div 2\<close> pairs.
\<close>

theorem engine_retains_coupling_pairs:
  assumes "generate_signature H paints fs E g file_path evolution = Some (res, E')"
  shows "E' = E\<lparr>entanglement_pairs := entanglement_pairs E'\<rparr>
         \<and> (\<forall>r. res = Some r \<longrightarrow>
               entanglement_pairs E' = entanglement (signature_data r)
               \<and> length (entanglement_pairs E') = dimensions E div 2)"
proof -
  have frame: "E' = E\<lparr>entanglement_pairs := entanglement_pairs E'\<rparr>"
    using generate_signature_engine[OF assms]
  proof
    assume "E' = E"
    then show ?thesis by simp
  next
    assume "\<exists>file_hash st g1. hash_to_quantum_state E file_hash g = Some (Inr (st, E', g1))"
    then obtain file_hash st g1 where
      "hash_to_quantum_state E file_hash g = Some (Inr (st, E', g1))" by blast
    from hash_to_quantum_state_result[OF this] show ?thesis by simp
  qed
  have "entanglement_pairs E' = entanglement (signature_data r)
        \<and> length (entanglement_pairs E') = dimensions E div 2" if "res = Some r" for r
  proof -
    from assms that have
      "generate_signature H paints fs E g file_path evolution = Some (Some r, E')" by simp
    from generate_signature_inversion[OF this]
    obtain file_hash st g1 evolved g2 sd g3 img u where
      q: "hash_to_quantum_state E file_hash g = Some (Inr (st, E', g1))"
      and a: "analyze_quantum_state E' evolved g2 = Inr (sd, g3)"
      and r: "r = \<lparr>signature_data = sd, signature_image = img,
                    confidence = confidence_level E', uniqueness_score = u\<rparr>"
      by blast
    from analyze_quantum_state_result[OF a] hash_to_quantum_state_result[OF q] r
    show ?thesis by simp
  qed
  with frame show ?thesis by blast
qed

theorem engine_retains_coupling_pairs_witness:
  "generate_signature small_hashlib no_ellipse small_fs small_engine alternating ''empty.bin'' False
     = Some (Some small_result, small_engine\<lparr>entanglement_pairs := [(0, 1)]\<rparr>)
   \<and> entanglement_pairs (small_engine\<lparr>entanglement_pairs := [(0, 1)]\<rparr>)
       = entanglement (signature_data small_result)
   \<and> length (entanglement_pairs (small_engine\<lparr>entanglement_pairs := [(0, 1)]\<rparr>)) = 1
   \<and> dimensions (small_engine\<lparr>entanglement_pairs := [(0, 1)]\<rparr>) = dimensions small_engine"
proof -
  note kept = engine_retains_coupling_pairs[OF small_run]
  from kept have same: "entanglement_pairs (small_engine\<lparr>entanglement_pairs := [(0, 1)]\<rparr>)
       = entanglement (signature_data small_result)"
    and count: "length (entanglement_pairs (small_engine\<lparr>entanglement_pairs := [(0, 1)]\<rparr>))
       = dimensions small_engine div 2" by blast+
  have "dimensions small_engine div 2 = 1" by (simp add: small_engine_def)
  with count have one: "length (entanglement_pairs (small_engine\<lparr>entanglement_pairs := [(0, 1)]\<rparr>)) = 1"
    by simp
  have frame: "dimensions (small_engine\<lparr>entanglement_pairs := [(0, 1)]\<rparr>) = dimensions small_engine"
    by simp
  from small_run same one frame show ?thesis by (intro conjI)
qed

theorem engine_differs_from_construction:
  "generate_signature small_hashlib no_ellipse small_fs init alternating ''empty.bin'' True \<noteq> None
   \<and> snd (the (generate_signature small_hashlib no_ellipse small_fs init alternating
                  ''empty.bin'' True)) \<noteq> init"
proof -
  from init_run obtain r E' where
    run: "generate_signature small_hashlib no_ellipse small_fs init alternating ''empty.bin'' True
            = Some (Some r, E')"
    and four: "length (entanglement_pairs E') = 4" by blast
  have "entanglement_pairs init = []" by (simp add: init_def)
  with four have "E' \<noteq> init" by auto
  with run show ?thesis by simp
qed

text \<open>
  C8. For a readable file without bytes, an engine with at least one dimension and
  a generator that keeps the library's promises and never repeats one
  \<open>randrange\<close> value forever: the digest is the BLAKE2b hash of the SHA-256, MD5
  and SHA-1 digests of the empty byte string, the call returns a result, its score
  lies in \<open>[0, 1]\<close>, and its picture has \<open>resolution\<close> rows of \<open>resolution\<close> pixels
  with byte channels.
\<close>

theorem empty_file_gives_signature:
  assumes "fs file_path = Some \<lparr>content = [], readable = True\<rparr>"
    and "0 < dimensions E"
    and "library_contract (dimensions E) g"
    and "never_stuck g"
  shows "calculate_complex_hash H fs file_path
           = Inr (blake2b H (sha256 H [] @ md5 H [] @ sha1 H []))
         \<and> (\<exists>r E'. generate_signature H paints fs E g file_path evolution = Some (Some r, E')
               \<and> 0 \<le> uniqueness_score r \<and> uniqueness_score r \<le> 1
               \<and> valid_image (resolution E) (signature_image r))"
proof -
  have rd: "readable \<lparr>content = [], readable = True\<rparr>" by simp
  have "calculate_complex_hash H fs file_path
          = Inr (hash_whole H (content \<lparr>content = [], readable = True\<rparr>))"
    using calculate_complex_hash_reads[of fs file_path _ H] assms(1) rd by blast
  then have digest: "calculate_complex_hash H fs file_path
           = Inr (blake2b H (sha256 H [] @ md5 H [] @ sha1 H []))"
    by (simp add: hash_whole_def)
  from generate_signature_succeeds[where fs = fs and file_path = file_path
      and f = "\<lparr>content = [], readable = True\<rparr>" and E = E and g = g
      and H = H and paints = paints and evolution = evolution]
    assms rd digest
  show ?thesis by blast
qed

theorem empty_file_gives_signature_witness:
  "calculate_complex_hash small_hashlib small_fs ''empty.bin'' = Inr [0, 255]
   \<and> (\<exists>r E'. generate_signature small_hashlib no_ellipse small_fs init alternating
                 ''empty.bin'' True = Some (Some r, E')
          \<and> 0 \<le> uniqueness_score r \<and> uniqueness_score r \<le> 1
          \<and> valid_image 256 (signature_image r))"
proof -
  have D: "0 < dimensions init" by (simp add: init_def)
  from empty_file_gives_signature[where fs = small_fs and file_path = "''empty.bin''"
      and E = init and g = alternating and H = small_hashlib and paints = no_ellipse
      and evolution = True]
    empty_file D library_contract_alternating_init never_stuck_alternating
  show ?thesis by (simp add: init_def small_hashlib_def)
qed


end
